theory Spec2Isabelle
  imports Complex_Main "HOL-Library.Sublist" "HOL-Library.Multiset" "HOL-Library.Product_Lexorder"
begin

section \<open>JavaScript strings\<close>

text \<open>
  The program is \<^verbatim>\<open>src/App.js\<close>, one React component. Its strings are modelled as
  \<^typ>\<open>string\<close>, one \<^typ>\<open>char\<close> for each code unit.

  \<^verbatim>\<open>String.prototype.substring(indexStart, indexEnd)\<close> clamps both indices to the range
  of the string and swaps them when the first exceeds the second.
\<close>

definition substring :: "string \<Rightarrow> int \<Rightarrow> int \<Rightarrow> string" where
  "substring s indexStart indexEnd =
     (let len = int (length s);
          finalStart = min (max indexStart 0) len;
          finalEnd = min (max indexEnd 0) len;
          lo = min finalStart finalEnd;
          hi = max finalStart finalEnd
      in take (nat (hi - lo)) (drop (nat lo) s))"

text \<open>
  The text of a response is what \<^verbatim>\<open>callGeminiAPI\<close> returned: a string, \<^verbatim>\<open>null\<close> (the
  request failed) or \<^verbatim>\<open>undefined\<close> (the answer held no candidate text). Template literals
  and \<^verbatim>\<open>replace\<close> turn it into a string with \<^verbatim>\<open>ToString\<close>.
\<close>

datatype js_text = Text string | JsNull | JsUndefined

fun toString :: "js_text \<Rightarrow> string" where
  "toString (Text s) = s"
| "toString JsNull = ''null''"
| "toString JsUndefined = ''undefined''"

text \<open>
  \<^verbatim>\<open>str.replace(searchString, replaceValue)\<close> with a string pattern replaces the first
  occurrence of the pattern only (the position \<^verbatim>\<open>indexOf\<close> gives). The replacement text
  is the result of \<^verbatim>\<open>GetSubstitution\<close> on \<^verbatim>\<open>replaceValue\<close>: \<^verbatim>\<open>$$\<close> stands for \<^verbatim>\<open>$\<close>, \<^verbatim>\<open>$&\<close> for
  the matched text, \<^verbatim>\<open>$`\<close> for the text before the match and \<^verbatim>\<open>$'\<close> for the text after
  it; with a string pattern there are no capture groups, so \<^verbatim>\<open>$1\<close>, \<^verbatim>\<open>$<\<close> and any other
  character stand for themselves.
\<close>

fun indexOf :: "string \<Rightarrow> string \<Rightarrow> nat option" where
  "indexOf [] searchString = (if searchString = [] then Some 0 else None)"
| "indexOf (c # cs) searchString =
     (if prefix searchString (c # cs) then Some 0
      else map_option Suc (indexOf cs searchString))"

fun getSubstitution :: "string \<Rightarrow> string \<Rightarrow> nat \<Rightarrow> string \<Rightarrow> string" where
  "getSubstitution matched str position (c # d # rest) =
     (if c = CHR ''$'' \<and> d = CHR ''$'' then CHR ''$'' # getSubstitution matched str position rest
      else if c = CHR ''$'' \<and> d = CHR 0x60 then take position str @ getSubstitution matched str position rest
      else if c = CHR ''$'' \<and> d = CHR ''&'' then matched @ getSubstitution matched str position rest
      else if c = CHR ''$'' \<and> d = CHR 0x27
        then drop (position + length matched) str @ getSubstitution matched str position rest
      else c # getSubstitution matched str position (d # rest))"
| "getSubstitution matched str position rest = rest"

definition replace :: "string \<Rightarrow> string \<Rightarrow> string \<Rightarrow> string" where
  "replace str searchString replaceValue =
     (case indexOf str searchString of
        None \<Rightarrow> str
      | Some position \<Rightarrow>
          take position str
          @ getSubstitution searchString str position replaceValue
          @ drop (position + length searchString) str)"

text \<open>
  The decimal digits of a number, as \<^verbatim>\<open>${i + 1}\<close> renders them, and
  \<^verbatim>\<open>Array.prototype.join\<close>.
\<close>

fun digits :: "nat \<Rightarrow> string" where
  "digits n =
     (if n < 10 then [''0123456789'' ! n]
      else digits (n div 10) @ [''0123456789'' ! (n mod 10)])"

declare digits.simps [simp del]


definition join :: "string \<Rightarrow> string list \<Rightarrow> string" where
  "join separator xs = (case xs of [] \<Rightarrow> [] | y # ys \<Rightarrow> y @ concat (map (\<lambda>z. separator @ z) ys))"

section \<open>JSON.parse\<close>

text \<open>
  The exceptions the program can meet are a \<^verbatim>\<open>TypeError\<close> (a property read on \<^verbatim>\<open>null\<close> or
  \<^verbatim>\<open>undefined\<close>), the \<^verbatim>\<open>SyntaxError\<close> of \<^verbatim>\<open>JSON.parse\<close> and the \<^verbatim>\<open>RangeError\<close> of an array that
  cannot grow any further.

  \<^verbatim>\<open>JSON.parse\<close> is the parser of the JSON grammar (ECMA-404): white space is space, tab,
  line feed and carriage return; a string holds no raw control character and knows the
  escapes of the quote, the backslash, the slash, of \<^verbatim>\<open>b f n r t\<close> and of \<^verbatim>\<open>u\<close> with four
  hexadecimal digits; a number is an optional minus sign, an
  integer part with no leading zero, and optional fraction and exponent. A JSON string
  value is a list of UTF-16 code units, since the last escape can name any unit. A number keeps
  its literal: its numeric value plays no part here. An object keeps its members in the
  order of the text; reading a property takes the last member of that name
  (\<open>property\<close>). The limit an engine puts on the nesting depth is not modelled.

  The three mutually recursive functions of the grammar count their calls down from a
  bound that is never reached (lemma \<open>JSON_parse_fuel\<close>) and that the result does not depend
  on (lemma \<open>JSON_parse_any_fuel\<close>).
\<close>

datatype js_error = TypeError | SyntaxError | RangeError

datatype json =
    JNull
  | JBool bool
  | JNumber string
  | JString "nat list"
  | JArray "json list"
  | JObject "(nat list \<times> json) list"

datatype 'a parsed = Parsed 'a string | Malformed | Exhausted

definition units :: "string \<Rightarrow> nat list" where
  "units s = map of_char s"

definition is_ws :: "char \<Rightarrow> bool" where
  "is_ws c \<longleftrightarrow> c = CHR '' '' \<or> c = CHR 0x09 \<or> c = CHR 0x0A \<or> c = CHR 0x0D"

definition skip_ws :: "string \<Rightarrow> string" where
  "skip_ws s = dropWhile is_ws s"

definition expect :: "char \<Rightarrow> string \<Rightarrow> string option" where
  "expect c s = (case skip_ws s of [] \<Rightarrow> None | d # r \<Rightarrow> if d = c then Some r else None)"

definition is_digit :: "char \<Rightarrow> bool" where
  "is_digit c \<longleftrightarrow> c \<in> set ''0123456789''"

definition hex_value :: "char \<Rightarrow> nat option" where
  "hex_value c =
     (if c \<in> set ''0123456789'' then Some (of_char c - 48)
      else if c \<in> set ''abcdef'' then Some (of_char c - 87)
      else if c \<in> set ''ABCDEF'' then Some (of_char c - 55)
      else None)"

definition hex4 :: "char \<Rightarrow> char \<Rightarrow> char \<Rightarrow> char \<Rightarrow> nat option" where
  "hex4 a b c d =
     (case (hex_value a, hex_value b, hex_value c, hex_value d) of
        (Some w, Some x, Some y, Some z) \<Rightarrow> Some (((w * 16 + x) * 16 + y) * 16 + z)
      | _ \<Rightarrow> None)"

definition escape :: "char \<Rightarrow> nat option" where
  "escape c =
     (if c = CHR 0x22 then Some 34
      else if c = CHR 0x5C then Some 92
      else if c = CHR ''/'' then Some 47
      else if c = CHR ''b'' then Some 8
      else if c = CHR ''f'' then Some 12
      else if c = CHR ''n'' then Some 10
      else if c = CHR ''r'' then Some 13
      else if c = CHR ''t'' then Some 9
      else None)"

fun string_body :: "string \<Rightarrow> nat list \<Rightarrow> (nat list \<times> string) option" where
  "string_body [] acc = None"
| "string_body (c # cs) acc =
     (if c = CHR 0x22 then Some (acc, cs)
      else if c = CHR 0x5C then
        (case cs of
           [] \<Rightarrow> None
         | e # r \<Rightarrow>
             if e = CHR ''u'' then
               (case r of
                  h1 # h2 # h3 # h4 # r' \<Rightarrow>
                    (case hex4 h1 h2 h3 h4 of
                       Some u \<Rightarrow> string_body r' (acc @ [u])
                     | None \<Rightarrow> None)
                | _ \<Rightarrow> None)
             else
               (case escape e of
                  Some u \<Rightarrow> string_body r (acc @ [u])
                | None \<Rightarrow> None))
      else if (of_char c :: nat) < 32 then None
      else string_body cs (acc @ [of_char c]))"

definition digits_of :: "string \<Rightarrow> (string \<times> string) option" where
  "digits_of s =
     (if takeWhile is_digit s = [] then None
      else Some (takeWhile is_digit s, dropWhile is_digit s))"

definition number_int :: "string \<Rightarrow> (string \<times> string) option" where
  "number_int s =
     (case s of
        [] \<Rightarrow> None
      | c # r \<Rightarrow>
          if c = CHR ''0'' then Some ([c], r)
          else if is_digit c then Some (c # takeWhile is_digit r, dropWhile is_digit r)
          else None)"

definition number_frac :: "string \<Rightarrow> (string \<times> string) option" where
  "number_frac s =
     (case s of
        [] \<Rightarrow> Some ([], s)
      | c # r \<Rightarrow>
          if c = CHR ''.'' then
            (case digits_of r of Some (ds, r') \<Rightarrow> Some (c # ds, r') | None \<Rightarrow> None)
          else Some ([], s))"

definition number_exp :: "string \<Rightarrow> (string \<times> string) option" where
  "number_exp s =
     (case s of
        [] \<Rightarrow> Some ([], s)
      | c # r \<Rightarrow>
          if c = CHR ''e'' \<or> c = CHR ''E'' then
            (case r of
               [] \<Rightarrow> None
             | d # r' \<Rightarrow>
                 if d = CHR ''+'' \<or> d = CHR ''-'' then
                   (case digits_of r' of Some (ds, r'') \<Rightarrow> Some (c # d # ds, r'') | None \<Rightarrow> None)
                 else
                   (case digits_of r of Some (ds, r'') \<Rightarrow> Some (c # ds, r'') | None \<Rightarrow> None))
          else Some ([], s))"

definition number :: "string \<Rightarrow> (string \<times> string) option" where
  "number s =
     (let (sign, s0) = (case s of
                          [] \<Rightarrow> ([], s)
                        | c # r \<Rightarrow> if c = CHR ''-'' then ([c], r) else ([], s))
      in case number_int s0 of
           None \<Rightarrow> None
         | Some (i, s1) \<Rightarrow>
             (case number_frac s1 of
                None \<Rightarrow> None
              | Some (f, s2) \<Rightarrow>
                  (case number_exp s2 of
                     None \<Rightarrow> None
                   | Some (e, s3) \<Rightarrow> Some (sign @ i @ f @ e, s3))))"

fun parse_value :: "nat \<Rightarrow> string \<Rightarrow> json parsed"
  and parse_elements :: "nat \<Rightarrow> string \<Rightarrow> json list parsed"
  and parse_members :: "nat \<Rightarrow> string \<Rightarrow> (nat list \<times> json) list parsed" where
  "parse_value 0 s = Exhausted"
| "parse_value (Suc n) s =
     (case skip_ws s of
        [] \<Rightarrow> Malformed
      | c # r \<Rightarrow>
          if c = CHR ''{'' then
            (case expect CHR ''}'' r of
               Some r' \<Rightarrow> Parsed (JObject []) r'
             | None \<Rightarrow>
                 (case parse_members n r of
                    Parsed ms r' \<Rightarrow> Parsed (JObject ms) r'
                  | Malformed \<Rightarrow> Malformed
                  | Exhausted \<Rightarrow> Exhausted))
          else if c = CHR ''['' then
            (case expect CHR '']'' r of
               Some r' \<Rightarrow> Parsed (JArray []) r'
             | None \<Rightarrow>
                 (case parse_elements n r of
                    Parsed vs r' \<Rightarrow> Parsed (JArray vs) r'
                  | Malformed \<Rightarrow> Malformed
                  | Exhausted \<Rightarrow> Exhausted))
          else if c = CHR 0x22 then
            (case string_body r [] of
               Some (u, r') \<Rightarrow> Parsed (JString u) r'
             | None \<Rightarrow> Malformed)
          else if prefix ''true'' (c # r) then Parsed (JBool True) (drop 4 (c # r))
          else if prefix ''false'' (c # r) then Parsed (JBool False) (drop 5 (c # r))
          else if prefix ''null'' (c # r) then Parsed JNull (drop 4 (c # r))
          else
            (case number (c # r) of
               Some (lexeme, r') \<Rightarrow> Parsed (JNumber lexeme) r'
             | None \<Rightarrow> Malformed))"
| "parse_elements 0 s = Exhausted"
| "parse_elements (Suc n) s =
     (case parse_value n s of
        Parsed v r \<Rightarrow>
          (case expect CHR '','' r of
             Some r' \<Rightarrow>
               (case parse_elements n r' of
                  Parsed vs r'' \<Rightarrow> Parsed (v # vs) r''
                | Malformed \<Rightarrow> Malformed
                | Exhausted \<Rightarrow> Exhausted)
           | None \<Rightarrow>
               (case expect CHR '']'' r of
                  Some r' \<Rightarrow> Parsed [v] r'
                | None \<Rightarrow> Malformed))
      | Malformed \<Rightarrow> Malformed
      | Exhausted \<Rightarrow> Exhausted)"
| "parse_members 0 s = Exhausted"
| "parse_members (Suc n) s =
     (case expect CHR 0x22 s of
        None \<Rightarrow> Malformed
      | Some r \<Rightarrow>
          (case string_body r [] of
             None \<Rightarrow> Malformed
           | Some (k, r1) \<Rightarrow>
               (case expect CHR '':'' r1 of
                  None \<Rightarrow> Malformed
                | Some r2 \<Rightarrow>
                    (case parse_value n r2 of
                       Parsed v r3 \<Rightarrow>
                         (case expect CHR '','' r3 of
                            Some r4 \<Rightarrow>
                              (case parse_members n r4 of
                                 Parsed ms r5 \<Rightarrow> Parsed ((k, v) # ms) r5
                               | Malformed \<Rightarrow> Malformed
                               | Exhausted \<Rightarrow> Exhausted)
                          | None \<Rightarrow>
                              (case expect CHR ''}'' r3 of
                                 Some r4 \<Rightarrow> Parsed [(k, v)] r4
                               | None \<Rightarrow> Malformed))
                     | Malformed \<Rightarrow> Malformed
                     | Exhausted \<Rightarrow> Exhausted))))"

definition JSON_parse :: "string \<Rightarrow> js_error + json" where
  "JSON_parse s =
     (case parse_value (2 * length s + 2) s of
        Parsed v r \<Rightarrow> if skip_ws r = [] then Inr v else Inl SyntaxError
      | Malformed \<Rightarrow> Inl SyntaxError
      | Exhausted \<Rightarrow> Inl SyntaxError)"

text \<open>
  A valid plan is a non-empty array of objects that have a string \<^verbatim>\<open>agent\<close> and a string
  \<^verbatim>\<open>prompt\<close>.
\<close>

definition property :: "(nat list \<times> json) list \<Rightarrow> string \<Rightarrow> json option" where
  "property members key = map_of (rev members) (units key)"

definition is_plan_step :: "json \<Rightarrow> bool" where
  "is_plan_step v =
     (case v of
        JObject members \<Rightarrow>
          (case (property members ''agent'', property members ''prompt'') of
             (Some (JString a), Some (JString p)) \<Rightarrow> True
           | _ \<Rightarrow> False)
      | _ \<Rightarrow> False)"

definition valid_plan :: "json \<Rightarrow> bool" where
  "valid_plan v = (case v of JArray steps \<Rightarrow> steps \<noteq> [] \<and> list_all is_plan_step steps | _ \<Rightarrow> False)"

section \<open>Text chunker\<close>

text \<open>
  \<^verbatim>\<open>const chunkText = (text, chunkSize = 1000, overlap = 200) => {
    const chunks = [];
    for (let i = 0; i < text.length; i += chunkSize - overlap) {
      chunks.push(text.substring(i, i + chunkSize)); }
    return chunks; };\<close>

  The function compares \<^verbatim>\<open>overlap\<close> with \<^verbatim>\<open>chunkSize\<close> nowhere. The loop is modelled twice.

  \<open>chunkText_loop\<close> is the loop over a list of chunks of any length. Nothing bounds this
  loop, so it is a partial function, and \<open>None\<close> is the loop that never leaves the text.
\<close>

partial_function (option) chunkText_loop ::
  "string \<Rightarrow> int \<Rightarrow> int \<Rightarrow> int \<Rightarrow> string list \<Rightarrow> string list option" where
  "chunkText_loop text chunkSize overlap i chunks =
     (if i < int (length text)
      then chunkText_loop text chunkSize overlap (i + (chunkSize - overlap))
             (chunks @ [substring text i (i + chunkSize)])
      else Some chunks)"

definition chunkText :: "string \<Rightarrow> int \<Rightarrow> int \<Rightarrow> string list option" where
  "chunkText text chunkSize overlap = chunkText_loop text chunkSize overlap 0 []"

text \<open>
  \<open>chunkText_array_loop\<close> is the same loop with the array of the language. The length of an
  array is less than \<open>2\<^sup>3\<^sup>2\<close>: \<^verbatim>\<open>Array.prototype.push\<close> on an array of \<open>2\<^sup>3\<^sup>2 - 1\<close> elements raises
  \<^verbatim>\<open>RangeError: Invalid array length\<close> when it sets the new length (an engine raises the same
  error earlier when it cannot allocate the array). This is the only path of \<^verbatim>\<open>chunkText\<close>
  that raises, and it makes the loop total. The two models agree as long as the array
  stays within its bound (lemma \<open>chunkText_array_ideal\<close>), which it does for every text of
  less than \<open>2\<^sup>3\<^sup>2\<close> characters when \<open>overlap < chunkSize\<close> (lemma \<open>chunkText_array_agrees\<close>).
\<close>

definition max_array_length :: nat where
  "max_array_length = 4294967295"

definition push :: "'a list \<Rightarrow> 'a \<Rightarrow> js_error + 'a list" where
  "push xs x = (if length xs < max_array_length then Inr (xs @ [x]) else Inl RangeError)"

function chunkText_array_loop ::
  "string \<Rightarrow> int \<Rightarrow> int \<Rightarrow> int \<Rightarrow> string list \<Rightarrow> js_error + string list" where
  "chunkText_array_loop text chunkSize overlap i chunks =
     (if i < int (length text)
      then case push chunks (substring text i (i + chunkSize)) of
             Inl e \<Rightarrow> Inl e
           | Inr chunks' \<Rightarrow>
               chunkText_array_loop text chunkSize overlap (i + (chunkSize - overlap)) chunks'
      else Inr chunks)"
  by pat_completeness auto
termination
  by (relation "measure (\<lambda>(text, chunkSize, overlap, i, chunks). max_array_length - length chunks)")
     (auto simp: push_def split: if_splits)

declare chunkText_array_loop.simps [simp del]

definition chunkText_array :: "string \<Rightarrow> int \<Rightarrow> int \<Rightarrow> js_error + string list" where
  "chunkText_array text chunkSize overlap = chunkText_array_loop text chunkSize overlap 0 []"

text \<open>
  The number of iterations the loop makes from position \<open>i\<close> with a positive stride \<open>d\<close>.
\<close>

definition chunk_count :: "nat \<Rightarrow> int \<Rightarrow> int \<Rightarrow> nat" where
  "chunk_count len i d = nat ((int len - i + d - 1) div d)"

section \<open>Numbers\<close>

text \<open>
  A number of the language is an IEEE 754 double: \<open>Finite s m e\<close> is the number
  \<open>(-1)\<^sup>s \<sqdot> m \<sqdot> 2\<^sup>e\<close> (so the two zeros are \<open>Finite False 0 e\<close> and \<open>Finite True 0 e\<close>),
  \<open>Infinity s\<close> is \<^verbatim>\<open>Infinity\<close> with its sign and \<open>NaN\<close> is \<^verbatim>\<open>NaN\<close>. The results of the
  operations are in the form of the format: a mantissa below \<open>2\<^sup>5\<^sup>3\<close>, an exponent from
  \<open>-1074\<close> to \<open>971\<close>, and a mantissa of at least \<open>2\<^sup>5\<^sup>2\<close> unless the exponent is \<open>-1074\<close>
  (lemma \<open>round_double_format\<close>).

  \<open>round_double s M E\<close> is the double nearest to the exact value \<open>(-1)\<^sup>s \<sqdot> M \<sqdot> 2\<^sup>E\<close>, the one with
  the even mantissa when two are equally near, and \<^verbatim>\<open>Infinity\<close> when the rounded value needs an
  exponent above \<open>971\<close>. \<open>bit_length M\<close> is the number of binary digits of \<open>M\<close>.
\<close>

datatype number = Finite bool nat int | Infinity bool | NaN

definition pos_zero :: number where
  "pos_zero = Finite False 0 (- 1074)"

fun bit_length :: "nat \<Rightarrow> nat" where
  "bit_length n = (if n = 0 then 0 else Suc (bit_length (n div 2)))"

declare bit_length.simps [simp del]

definition round_half_even :: "nat \<Rightarrow> nat \<Rightarrow> nat" where
  "round_half_even M k =
     (let q = M div 2 ^ k; r = M mod 2 ^ k
      in if 2 ^ (k - 1) < r \<or> (r = 2 ^ (k - 1) \<and> odd q) then q + 1 else q)"

definition round_double :: "bool \<Rightarrow> nat \<Rightarrow> int \<Rightarrow> number" where
  "round_double s M E =
     (if M = 0 then Finite s 0 (- 1074)
      else
        let e = max (E + int (bit_length M) - 53) (- 1074);
            m = (if e \<le> E then M * 2 ^ nat (E - e) else round_half_even M (nat (e - E)))
        in if m = 2 ^ 53
           then (if 971 < e + 1 then Infinity s else Finite s (2 ^ 52) (e + 1))
           else (if 971 < e then Infinity s else Finite s m e))"

text \<open>
  The operators \<^verbatim>\<open>+\<close>, \<^verbatim>\<open>-\<close>, \<^verbatim>\<open>*\<close>, \<^verbatim>\<open><\<close> and \<^verbatim>\<open>===\<close> on numbers. Sum and product are the exact
  results rounded; \<open>aligned s m e E\<close> is the integer \<open>(-1)\<^sup>s \<sqdot> m \<sqdot> 2\<^sup>e\<^sup>-\<^sup>E\<close>, for an exponent \<open>E\<close>
  that is not above \<open>e\<close>. A sum that is exactly zero is \<open>-0\<close> only when both terms are
  negative; \<^verbatim>\<open>Infinity - Infinity\<close> and \<^verbatim>\<open>0 * Infinity\<close> are \<^verbatim>\<open>NaN\<close>; every comparison with \<^verbatim>\<open>NaN\<close>
  is false.
\<close>

definition signed_mantissa :: "bool \<Rightarrow> nat \<Rightarrow> int" where
  "signed_mantissa s m = (if s then - int m else int m)"

definition aligned :: "bool \<Rightarrow> nat \<Rightarrow> int \<Rightarrow> int \<Rightarrow> int" where
  "aligned s m e E = signed_mantissa s m * 2 ^ nat (e - E)"

fun fadd :: "number \<Rightarrow> number \<Rightarrow> number" where
  "fadd (Finite sa ma ea) (Finite sb mb eb) =
     (let E = min ea eb;
          S = aligned sa ma ea E + aligned sb mb eb E
      in if S = 0 then Finite (sa \<and> sb) 0 (- 1074)
         else round_double (S < 0) (nat \<bar>S\<bar>) E)"
| "fadd (Finite sa ma ea) (Infinity sb) = Infinity sb"
| "fadd (Infinity sa) (Finite sb mb eb) = Infinity sa"
| "fadd (Infinity sa) (Infinity sb) = (if sa = sb then Infinity sa else NaN)"
| "fadd x y = NaN"

fun fneg :: "number \<Rightarrow> number" where
  "fneg (Finite s m e) = Finite (\<not> s) m e"
| "fneg (Infinity s) = Infinity (\<not> s)"
| "fneg NaN = NaN"

definition fsub :: "number \<Rightarrow> number \<Rightarrow> number" where
  "fsub x y = fadd x (fneg y)"

fun fmul :: "number \<Rightarrow> number \<Rightarrow> number" where
  "fmul (Finite sa ma ea) (Finite sb mb eb) = round_double (sa \<noteq> sb) (ma * mb) (ea + eb)"
| "fmul (Finite sa ma ea) (Infinity sb) = (if ma = 0 then NaN else Infinity (sa \<noteq> sb))"
| "fmul (Infinity sa) (Finite sb mb eb) = (if mb = 0 then NaN else Infinity (sa \<noteq> sb))"
| "fmul (Infinity sa) (Infinity sb) = Infinity (sa \<noteq> sb)"
| "fmul x y = NaN"

fun less_number :: "number \<Rightarrow> number \<Rightarrow> bool" where
  "less_number (Finite sa ma ea) (Finite sb mb eb) =
     (aligned sa ma ea (min ea eb) < aligned sb mb eb (min ea eb))"
| "less_number (Finite sa ma ea) (Infinity sb) = (\<not> sb)"
| "less_number (Infinity sa) (Finite sb mb eb) = sa"
| "less_number (Infinity sa) (Infinity sb) = (sa \<and> \<not> sb)"
| "less_number x y = False"


section \<open>Session state\<close>

text \<open>
  The objects of the program: an uploaded file \<^verbatim>\<open>{name, type, fileObject, content,
  textContent}\<close> (\<^verbatim>\<open>content\<close> is set for images, \<^verbatim>\<open>textContent\<close> once the text is extracted),
  an entry of the vector index \<^verbatim>\<open>{fileName, chunk, embedding}\<close>, a query result
  \<^verbatim>\<open>{...v, similarity}\<close>, a plan step \<^verbatim>\<open>{agent, prompt}\<close>, the response of an agent
  \<^verbatim>\<open>{role: 'model', agent, parts: [{ text }], sources}\<close> and the messages of the chat.

  An embedding is an array of numbers; it is \<open>None\<close> when the value is \<^verbatim>\<open>null\<close> or \<^verbatim>\<open>undefined\<close>
  (what \<^verbatim>\<open>filter(v => v.embedding)\<close> and \<^verbatim>\<open>!queryEmbedding\<close> test).
\<close>

record uploaded_file =
  file_name :: string
  file_type :: string
  file_content :: "string option"
  file_textContent :: "string option"

record vector_entry =
  fileName :: string
  chunk :: string
  embedding :: "number list option"

record scored_entry = vector_entry +
  similarity :: number

record plan_step =
  step_agent :: string
  step_prompt :: string

record agent_response =
  resp_agent :: string
  resp_text :: js_text
  resp_sources :: "(string \<times> string) list option"

text \<open>
  The chat holds the user's messages \<^verbatim>\<open>{role: 'user', parts: [{ text }], image}\<close>, plain
  model messages \<^verbatim>\<open>{role: 'model', parts: [{ text }]}\<close>, the planner's message
  \<^verbatim>\<open>{role: 'model', agent: 'Planner', plan}\<close>, the progress message of a running step
  \<^verbatim>\<open>{role: 'model', agent, thinking: true, step: {current, total, task}}\<close> and the
  recorded responses \<^verbatim>\<open>{...agentResponse, finalStep}\<close>.
\<close>

datatype chat_message =
    UserMessage string "uploaded_file option"
  | ModelMessage string
  | PlanMessage json
  | ThinkingMessage string nat nat string
  | AgentMessage agent_response bool

text \<open>
  The state of the component (\<^verbatim>\<open>useState\<close>); \<open>modelReady\<close> is \<^verbatim>\<open>modelStatus.ready\<close>.

  \<^verbatim>\<open>App\<close> is a React function component: every render runs the function again and binds
  \<^verbatim>\<open>chatHistory\<close>, \<^verbatim>\<open>uploadedFiles\<close>, \<^verbatim>\<open>vectorStore\<close>, \<^verbatim>\<open>attachedImage\<close>, \<^verbatim>\<open>modelStatus\<close> as
  constants of that render, and the handlers are closures of the render that created
  them. A handler that runs across several \<^verbatim>\<open>await\<close>s therefore keeps reading the values
  of its own render, while its calls of the setters (all of them either constant or of
  the form \<^verbatim>\<open>set(prev => ...)\<close>) update the state that later renders will see. The
  functions below take both: \<open>snap\<close>, the session of the render the handler belongs to,
  which they read, and \<open>st\<close>, the current session, which they update and return.
\<close>

record session =
  chatHistory :: "chat_message list"
  uploadedFiles :: "uploaded_file list"
  vectorStore :: "vector_entry list"
  attachedImage :: "uploaded_file option"
  isLoading :: bool
  isIndexing :: bool
  error :: "string option"
  modelReady :: bool

text \<open>
  The collaborators. The language model is reached by \<^verbatim>\<open>fetch\<close> in \<^verbatim>\<open>callGeminiAPI\<close>: the
  request is determined by the prompt and the image, and its outcome is the text of the
  first candidate, an answer without such a text (the optional chain gives
  \<^verbatim>\<open>undefined\<close>), or a failure with the message of the error.

  \<^verbatim>\<open>const callGeminiAPI = async ({ prompt, image = null }) => { ...
    try { const response = await fetch(url, ...);
      if (!response.ok) throw new Error(`API Error: ${response.status}`);
      const result = await response.json();
      return result.candidates?.[0]?.content?.parts?.[0]?.text;
    } catch (err) { setError(`Generation failed: ${err.message}`);
      setIsLoading(false); return null; } };\<close>

  \<^verbatim>\<open>getClientSideEmbedding\<close> is called by the program but defined nowhere in the source
  files at hand; it is a parameter here, a function from a text to an embedding that
  gives \<open>None\<close> when it fails, which is how its two callers test its result.
\<close>

datatype api_outcome = ApiText string | ApiNoText | ApiFailure string

type_synonym language_model = "string \<Rightarrow> uploaded_file option \<Rightarrow> api_outcome"
type_synonym embedder = "string \<Rightarrow> number list option"

definition callGeminiAPI ::
  "language_model \<Rightarrow> string \<Rightarrow> uploaded_file option \<Rightarrow> session \<Rightarrow> js_text \<times> session" where
  "callGeminiAPI api prompt img st =
     (case api prompt img of
        ApiText t \<Rightarrow> (Text t, st)
      | ApiNoText \<Rightarrow> (JsUndefined, st)
      | ApiFailure message \<Rightarrow>
          (JsNull, st\<lparr>error := Some (''Generation failed: '' @ message), isLoading := False\<rparr>))"

section \<open>Retrieval\<close>

text \<open>
  \<^verbatim>\<open>const dotProduct = (vecA, vecB) => { let p = 0;
    for (let i = 0; i < vecA.length; i++) { p += vecA[i] * vecB[i]; } return p; };\<close>

  The sum and the products are those of doubles, rounded at every step. An index beyond
  the end of \<^verbatim>\<open>vecB\<close> reads \<^verbatim>\<open>undefined\<close>, which is \<^verbatim>\<open>NaN\<close> as a number, and makes the sum
  \<^verbatim>\<open>NaN\<close>; reading an index of a \<^verbatim>\<open>vecB\<close> that is \<^verbatim>\<open>null\<close> or \<^verbatim>\<open>undefined\<close> raises a \<^verbatim>\<open>TypeError\<close>.
\<close>

function dotProduct_loop :: "number list \<Rightarrow> number list \<Rightarrow> nat \<Rightarrow> number \<Rightarrow> number" where
  "dotProduct_loop vecA vecB i p =
     (if i < length vecA
      then dotProduct_loop vecA vecB (i + 1)
             (fadd p (fmul (vecA ! i) (if i < length vecB then vecB ! i else NaN)))
      else p)"
  by pat_completeness auto
termination
  by (relation "measure (\<lambda>(vecA, vecB, i, p). length vecA - i)") auto

declare dotProduct_loop.simps [simp del]

definition dotProduct :: "number list \<Rightarrow> number list option \<Rightarrow> js_error + number" where
  "dotProduct vecA vecB =
     (case vecB of
        Some b \<Rightarrow> Inr (dotProduct_loop vecA b 0 pos_zero)
      | None \<Rightarrow> if vecA = [] then Inr pos_zero else Inl TypeError)"

text \<open>
  \<^verbatim>\<open>Array.prototype.map\<close> with a callback that may raise: the first exception ends it.
\<close>

fun map_throwing :: "('a \<Rightarrow> js_error + 'b) \<Rightarrow> 'a list \<Rightarrow> js_error + 'b list" where
  "map_throwing f [] = Inr []"
| "map_throwing f (x # xs) =
     (case f x of
        Inl e \<Rightarrow> Inl e
      | Inr y \<Rightarrow> (case map_throwing f xs of Inl e \<Rightarrow> Inl e | Inr ys \<Rightarrow> Inr (y # ys)))"

text \<open>
  \<^verbatim>\<open>Array.prototype.sort(comparefn)\<close> is a stable sort (ECMAScript 2019); a comparator
  value \<^verbatim>\<open>NaN\<close> counts as \<open>+0\<close>, and \<open>x\<close> goes after \<open>y\<close> when the value for \<open>x\<close> and \<open>y\<close> is
  above zero. For a comparator that is a consistent ordering the result is fixed by the
  language; it is computed here by insertion from the right, which keeps equal elements
  in their order. For a comparator that is not a consistent ordering the language leaves
  the order to the engine, and this insertion need not be the order of an engine: that
  is the case of \<open>by_similarity_desc\<close> exactly when a score is \<^verbatim>\<open>NaN\<close>, and what is proved of
  the order of the results (claim C3) is proved for scores that are not \<^verbatim>\<open>NaN\<close>.
\<close>

definition sortCompare :: "('a \<Rightarrow> 'a \<Rightarrow> number) \<Rightarrow> 'a \<Rightarrow> 'a \<Rightarrow> number" where
  "sortCompare comparefn x y = (case comparefn x y of NaN \<Rightarrow> pos_zero | v \<Rightarrow> v)"

fun insert_sorted :: "('a \<Rightarrow> 'a \<Rightarrow> number) \<Rightarrow> 'a \<Rightarrow> 'a list \<Rightarrow> 'a list" where
  "insert_sorted comparefn x [] = [x]"
| "insert_sorted comparefn x (y # ys) =
     (if \<not> less_number pos_zero (sortCompare comparefn x y) then x # y # ys
      else y # insert_sorted comparefn x ys)"

definition sort_js :: "('a \<Rightarrow> 'a \<Rightarrow> number) \<Rightarrow> 'a list \<Rightarrow> 'a list" where
  "sort_js comparefn xs = foldr (insert_sorted comparefn) xs []"

text \<open>
  \<^verbatim>\<open>const findSimilarChunks = async (query) => {
    if (vectorStore.length === 0 || !modelStatus.ready) return [];
    const queryEmbedding = await getClientSideEmbedding(query);
    if (!queryEmbedding) return [];
    const similarities = vectorStore.map(v =>
      ({...v, similarity: dotProduct(queryEmbedding, v.embedding)}));
    similarities.sort((a, b) => b.similarity - a.similarity);
    return similarities.slice(0, 3); };\<close>
\<close>

definition by_similarity_desc :: "scored_entry \<Rightarrow> scored_entry \<Rightarrow> number" where
  "by_similarity_desc a b = fsub (similarity b) (similarity a)"

definition findSimilarChunks :: "embedder \<Rightarrow> session \<Rightarrow> string \<Rightarrow> js_error + scored_entry list" where
  "findSimilarChunks getClientSideEmbedding snap query =
     (if vectorStore snap = [] \<or> \<not> modelReady snap then Inr []
      else case getClientSideEmbedding query of
        None \<Rightarrow> Inr []
      | Some queryEmbedding \<Rightarrow>
          (case map_throwing
                  (\<lambda>v. case dotProduct queryEmbedding (embedding v) of
                         Inl e \<Rightarrow> Inl e
                       | Inr s \<Rightarrow> Inr (vector_entry.extend v \<lparr>similarity = s\<rparr>))
                  (vectorStore snap) of
             Inl e \<Rightarrow> Inl e
           | Inr similarities \<Rightarrow> Inr (take 3 (sort_js by_similarity_desc similarities))))"


section \<open>Ingest and removal\<close>

text \<open>
  \<^verbatim>\<open>parseFileContent\<close> hands the file to the library for its type (pdf.js, mammoth, xlsx,
  \<^verbatim>\<open>TextDecoder\<close>); the libraries are the parameter \<open>extractText\<close>, \<open>None\<close> when one of them
  raises. In that case the function sets the error message and returns \<^verbatim>\<open>null\<close>.

  \<^verbatim>\<open>const processAndEmbedFiles = async (files) => {
    if (!modelStatus.ready) { setError("Document model not ready."); return; }
    setIsIndexing(true);
    let newVectors = [];
    for (const file of files) {
      if (file.type.startsWith('image/')) continue;
      const textContent = await parseFileContent(file.fileObject);
      if (!textContent) continue;
      setUploadedFiles(prev => prev.map(f =>
        f.name === file.name ? { ...f, textContent } : f));
      const chunks = chunkText(textContent);
      const embeddings = await Promise.all(chunks.map(c => getClientSideEmbedding(c)));
      newVectors.push(...chunks.map((chunk, i) =>
        ({ fileName: file.name, chunk, embedding: embeddings[i] })).filter(v => v.embedding));
    }
    setVectorStore(prev => [...prev, ...newVectors]);
    setIsIndexing(false); };\<close>

  The chunker is called with its default sizes, where the loop over a list of any length
  (\<open>chunkText\<close>) returns for every text (lemma \<open>chunkText_defaults\<close>) and makes fewer chunks
  than the text has characters; the result \<open>None\<close> stands for a call of the chunker that
  does not return.
\<close>

type_synonym extractor = "uploaded_file \<Rightarrow> string option"

definition parseFileContent :: "extractor \<Rightarrow> uploaded_file \<Rightarrow> session \<Rightarrow> string option \<times> session" where
  "parseFileContent extractText file st =
     (case extractText file of
        Some t \<Rightarrow> (Some t, st)
      | None \<Rightarrow> (None, st\<lparr>error := Some (''Could not parse '' @ file_name file @ ''.'')\<rparr>))"

fun embed_files ::
  "extractor \<Rightarrow> embedder \<Rightarrow> uploaded_file list \<Rightarrow> vector_entry list \<Rightarrow> session
   \<Rightarrow> (vector_entry list \<times> session) option" where
  "embed_files extractText getClientSideEmbedding [] newVectors st = Some (newVectors, st)"
| "embed_files extractText getClientSideEmbedding (file # files) newVectors st =
     (if prefix ''image/'' (file_type file)
      then embed_files extractText getClientSideEmbedding files newVectors st
      else case parseFileContent extractText file st of
        (None, st1) \<Rightarrow> embed_files extractText getClientSideEmbedding files newVectors st1
      | (Some textContent, st1) \<Rightarrow>
          if textContent = [] then embed_files extractText getClientSideEmbedding files newVectors st1
          else
            let st2 = st1\<lparr>uploadedFiles :=
                           map (\<lambda>f. if file_name f = file_name file
                                     then f\<lparr>file_textContent := Some textContent\<rparr> else f)
                               (uploadedFiles st1)\<rparr>
            in case chunkText textContent 1000 200 of
                 None \<Rightarrow> None
               | Some chunks \<Rightarrow>
                   let embeddings = map getClientSideEmbedding chunks
                   in embed_files extractText getClientSideEmbedding files
                        (newVectors
                         @ filter (\<lambda>v. embedding v \<noteq> None)
                             (map (\<lambda>(c, e). \<lparr>fileName = file_name file, chunk = c, embedding = e\<rparr>)
                                  (zip chunks embeddings)))
                        st2)"

definition processAndEmbedFiles ::
  "extractor \<Rightarrow> embedder \<Rightarrow> session \<Rightarrow> uploaded_file list \<Rightarrow> session \<Rightarrow> session option" where
  "processAndEmbedFiles extractText getClientSideEmbedding snap files st =
     (if \<not> modelReady snap then Some (st\<lparr>error := Some ''Document model not ready.''\<rparr>)
      else case embed_files extractText getClientSideEmbedding files [] (st\<lparr>isIndexing := True\<rparr>) of
        None \<Rightarrow> None
      | Some (newVectors, st') \<Rightarrow>
          Some (st'\<lparr>vectorStore := vectorStore st' @ newVectors, isIndexing := False\<rparr>))"

text \<open>
  \<^verbatim>\<open>const removeFile = (fileName) => {
    setUploadedFiles(prev => prev.filter(f => f.name !== fileName));
    setVectorStore(prev => prev.filter(v => v.fileName !== fileName));
    if (attachedImage?.name === fileName) setAttachedImage(null); };\<close>
\<close>

definition removeFile :: "session \<Rightarrow> string \<Rightarrow> session \<Rightarrow> session" where
  "removeFile snap removed st =
     (let st1 = st\<lparr>uploadedFiles := filter (\<lambda>f. file_name f \<noteq> removed) (uploadedFiles st)\<rparr>;
          st2 = st1\<lparr>vectorStore := filter (\<lambda>v. fileName v \<noteq> removed) (vectorStore st1)\<rparr>
      in if map_option file_name (attachedImage snap) = Some removed
         then st2\<lparr>attachedImage := None\<rparr> else st2)"

text \<open>
  The session of the first render.
\<close>

definition initial :: session where
  "initial = \<lparr>chatHistory = [], uploadedFiles = [], vectorStore = [], attachedImage = None,
              isLoading = False, isIndexing = False, error = None, modelReady = False\<rparr>"

section \<open>Agents and plan execution\<close>

text \<open>
  The five handlers. Each returns the response, or the exception that ends it, and the
  updated session.

  \<^verbatim>\<open>const handleKnowledgeQuery = async (prompt) => {
    const similarChunks = await findSimilarChunks(prompt);
    if (similarChunks.length === 0) return { role: 'model', agent: 'KnowledgeAgent',
      parts: [{ text: "I couldn't find any relevant information in the uploaded documents to answer that." }]};
    const context = similarChunks.map(c =>
      `Source: ${c.fileName}\nContent:\n${c.chunk}`).join('\n\n---\n\n');
    const augmentedPrompt = `Based *only* on the context below, ...`;
    const text = await callGeminiAPI({prompt: augmentedPrompt});
    const sources = similarChunks.map(c => ({ fileName: c.fileName, chunk: c.chunk }));
    return { role: 'model', agent: 'KnowledgeAgent', parts: [{ text }], sources }; };\<close>
\<close>

definition handleKnowledgeQuery ::
  "language_model \<Rightarrow> embedder \<Rightarrow> session \<Rightarrow> string \<Rightarrow> session
   \<Rightarrow> (js_error + agent_response) \<times> session" where
  "handleKnowledgeQuery api getClientSideEmbedding snap prompt st =
     (case findSimilarChunks getClientSideEmbedding snap prompt of
        Inl e \<Rightarrow> (Inl e, st)
      | Inr similarChunks \<Rightarrow>
          if length similarChunks = 0
          then (Inr \<lparr>resp_agent = ''KnowledgeAgent'',
                     resp_text = Text ''I couldn't find any relevant information in the uploaded documents to answer that.'',
                     resp_sources = None\<rparr>, st)
          else
            let context = join ''\<newline>\<newline>---\<newline>\<newline>''
                            (map (\<lambda>c. ''Source: '' @ fileName c @ ''\<newline>Content:\<newline>'' @ chunk c)
                                 similarChunks);
                augmentedPrompt =
                  ''Based *only* on the context below, answer the user's question.\<newline>\<newline>--- CONTEXT ---\<newline>''
                  @ context
                  @ ''\<newline>--- END CONTEXT ---\<newline>\<newline>User Question: \"'' @ prompt @ ''\"'';
                (text, st') = callGeminiAPI api augmentedPrompt None st;
                sources = map (\<lambda>c. (fileName c, chunk c)) similarChunks
            in (Inr \<lparr>resp_agent = ''KnowledgeAgent'', resp_text = text,
                      resp_sources = Some sources\<rparr>, st'))"

definition handleWebSearchQuery ::
  "language_model \<Rightarrow> string \<Rightarrow> session \<Rightarrow> (js_error + agent_response) \<times> session" where
  "handleWebSearchQuery api prompt st =
     (let searchPrompt =
            ''You are a web search agent. Find relevant information for the query and provide a concise answer with 2-3 simulated markdown links. Query: \"''
            @ prompt @ ''\"'';
          (text, st') = callGeminiAPI api searchPrompt None st
      in (Inr \<lparr>resp_agent = ''WebSearchAgent'', resp_text = text, resp_sources = None\<rparr>, st'))"

definition handleCodeGenerationQuery ::
  "language_model \<Rightarrow> string \<Rightarrow> session \<Rightarrow> (js_error + agent_response) \<times> session" where
  "handleCodeGenerationQuery api prompt st =
     (let codePrompt =
            ''You are a code generation agent. Generate a code snippet for the request. Provide only the code in a markdown block. Request: \"''
            @ prompt @ ''\"'';
          (text, st') = callGeminiAPI api codePrompt None st
      in (Inr \<lparr>resp_agent = ''CodeGenerationAgent'', resp_text = text, resp_sources = None\<rparr>, st'))"

text \<open>
  \<^verbatim>\<open>const handleSummarizationQuery = async (prompt) => {
    const file = uploadedFiles.find(f => f.name === prompt);
    const textToSummarize = file ? file.textContent : prompt;
    if (!textToSummarize) return { role: 'model', agent: 'SummarizationAgent', parts:
      [{ text: `Error: Could not find document or text to summarize for "${prompt}".` }] };
    ... };\<close>
\<close>

definition handleSummarizationQuery ::
  "language_model \<Rightarrow> session \<Rightarrow> string \<Rightarrow> session \<Rightarrow> (js_error + agent_response) \<times> session" where
  "handleSummarizationQuery api snap prompt st =
     (let file = find (\<lambda>f. file_name f = prompt) (uploadedFiles snap);
          textToSummarize = (case file of Some f \<Rightarrow> file_textContent f | None \<Rightarrow> Some prompt)
      in case textToSummarize of
           None \<Rightarrow>
             (Inr \<lparr>resp_agent = ''SummarizationAgent'',
                   resp_text = Text (''Error: Could not find document or text to summarize for \"'' @ prompt @ ''\".''),
                   resp_sources = None\<rparr>, st)
         | Some t \<Rightarrow>
             if t = []
             then (Inr \<lparr>resp_agent = ''SummarizationAgent'',
                        resp_text = Text (''Error: Could not find document or text to summarize for \"'' @ prompt @ ''\".''),
                        resp_sources = None\<rparr>, st)
             else
               let summaryPrompt =
                     ''Provide a concise, professional summary of the following text:\<newline>\<newline>--- TEXT ---\<newline>''
                     @ t @ ''\<newline>--- END TEXT ---'';
                   (text, st') = callGeminiAPI api summaryPrompt None st
               in (Inr \<lparr>resp_agent = ''SummarizationAgent'', resp_text = text, resp_sources = None\<rparr>, st'))"

text \<open>
  \<^verbatim>\<open>const handleImageAnalysisQuery = async (prompt) => {
    if (!attachedImage) return { role: 'model', agent: 'ImageAnalysisAgent',
      parts: [{ text: "Error: No image was attached." }] };
    const text = await callGeminiAPI({prompt, image: attachedImage});
    setAttachedImage(null);
    return { role: 'model', agent: 'ImageAnalysisAgent', parts: [{ text }] }; };\<close>

  \<^verbatim>\<open>attachedImage\<close> is the constant of the handler's own render (\<open>snap\<close>);
  \<^verbatim>\<open>setAttachedImage(null)\<close> updates the session.
\<close>

definition handleImageAnalysisQuery ::
  "language_model \<Rightarrow> session \<Rightarrow> string \<Rightarrow> session \<Rightarrow> (js_error + agent_response) \<times> session" where
  "handleImageAnalysisQuery api snap prompt st =
     (case attachedImage snap of
        None \<Rightarrow>
          (Inr \<lparr>resp_agent = ''ImageAnalysisAgent'', resp_text = Text ''Error: No image was attached.'',
                resp_sources = None\<rparr>, st)
      | Some img \<Rightarrow>
          let (text, st') = callGeminiAPI api prompt (Some img) st
          in (Inr \<lparr>resp_agent = ''ImageAnalysisAgent'', resp_text = text, resp_sources = None\<rparr>,
              st'\<lparr>attachedImage := None\<rparr>))"

text \<open>
  \<^verbatim>\<open>const callAgent = async (agent, prompt) => { let response;
    switch (agent) {
      case 'KnowledgeAgent': response = await handleKnowledgeQuery(prompt); break;
      ...
      default: response = { role: 'model', agent,
        parts: [{ text: `Error: Unknown agent "${agent}".` }] };
    } return response; };\<close>
\<close>

definition callAgent ::
  "language_model \<Rightarrow> embedder \<Rightarrow> session \<Rightarrow> string \<Rightarrow> string \<Rightarrow> session
   \<Rightarrow> (js_error + agent_response) \<times> session" where
  "callAgent api getClientSideEmbedding snap agent prompt st =
     (if agent = ''KnowledgeAgent'' then handleKnowledgeQuery api getClientSideEmbedding snap prompt st
      else if agent = ''WebSearchAgent'' then handleWebSearchQuery api prompt st
      else if agent = ''CodeGenerationAgent'' then handleCodeGenerationQuery api prompt st
      else if agent = ''SummarizationAgent'' then handleSummarizationQuery api snap prompt st
      else if agent = ''ImageAnalysisAgent'' then handleImageAnalysisQuery api snap prompt st
      else (Inr \<lparr>resp_agent = agent,
                 resp_text = Text (''Error: Unknown agent \"'' @ agent @ ''\".''),
                 resp_sources = None\<rparr>, st))"

text \<open>
  \<^verbatim>\<open>const executePlan = async (plan) => {
    let stepOutputs = {};
    for (let i = 0; i < plan.length; i++) {
      const step = plan[i];
      let currentPrompt = step.prompt;
      // Substitute outputs from previous steps
      for (const key in stepOutputs) {
        currentPrompt = currentPrompt.replace(`{{${key}}}`, stepOutputs[key]); }
      setChatHistory(prev => [...prev, { role: 'model', agent: step.agent, thinking: true,
        step: { current: i + 1, total: plan.length, task: currentPrompt } }]);
      const agentResponse = await callAgent(step.agent, currentPrompt);
      stepOutputs[`step_${i + 1}_output`] = agentResponse.parts[0].text;
      // Replace the "thinking" message with the final result of the step
      setChatHistory(prev => [...prev.slice(0, -1),
        { ...agentResponse, finalStep: i === plan.length - 1 }]); } };\<close>

  \<^verbatim>\<open>stepOutputs\<close> is an object whose keys are enumerated by \<^verbatim>\<open>for ... in\<close> in the order
  they were added, so it is a list of pairs. The function returns nothing; what it does
  is seen in the chat history and in the calls it makes, so the model returns the
  exception that ended it (if any), the calls of \<^verbatim>\<open>callAgent\<close> in order (agent and
  prompt), the outputs and the session.
\<close>

type_synonym step_outputs = "(string \<times> js_text) list"

fun assign :: "step_outputs \<Rightarrow> string \<Rightarrow> js_text \<Rightarrow> step_outputs" where
  "assign [] key v = [(key, v)]"
| "assign ((k, w) # kvs) key v = (if k = key then (k, v) # kvs else (k, w) # assign kvs key v)"

fun substitute_outputs :: "step_outputs \<Rightarrow> string \<Rightarrow> string" where
  "substitute_outputs [] currentPrompt = currentPrompt"
| "substitute_outputs ((key, v) # kvs) currentPrompt =
     substitute_outputs kvs (replace currentPrompt (''{{'' @ key @ ''}}'') (toString v))"

record execution =
  outcome :: "js_error option"
  dispatched :: "(string \<times> string) list"
  stepOutputs :: step_outputs
  final :: session

function executePlan_loop ::
  "language_model \<Rightarrow> embedder \<Rightarrow> session \<Rightarrow> plan_step list \<Rightarrow> nat \<Rightarrow> step_outputs
   \<Rightarrow> (string \<times> string) list \<Rightarrow> session \<Rightarrow> execution" where
  "executePlan_loop api getClientSideEmbedding snap plan i outputs calls st =
     (if i < length plan
      then
        let step = plan ! i;
            currentPrompt = substitute_outputs outputs (step_prompt step);
            st1 = st\<lparr>chatHistory := chatHistory st
                       @ [ThinkingMessage (step_agent step) (i + 1) (length plan) currentPrompt]\<rparr>;
            calls' = calls @ [(step_agent step, currentPrompt)]
        in case callAgent api getClientSideEmbedding snap (step_agent step) currentPrompt st1 of
             (Inl e, st2) \<Rightarrow>
               \<lparr>outcome = Some e, dispatched = calls', stepOutputs = outputs, final = st2\<rparr>
           | (Inr agentResponse, st2) \<Rightarrow>
               executePlan_loop api getClientSideEmbedding snap plan (i + 1)
                 (assign outputs (''step_'' @ digits (i + 1) @ ''_output'') (resp_text agentResponse))
                 calls'
                 (st2\<lparr>chatHistory := butlast (chatHistory st2)
                        @ [AgentMessage agentResponse (i + 1 = length plan)]\<rparr>)
      else \<lparr>outcome = None, dispatched = calls, stepOutputs = outputs, final = st\<rparr>)"
  by pat_completeness auto
termination
  by (relation "measure (\<lambda>(api, e, snap, plan, i, outputs, calls, st). length plan - i)") auto

declare executePlan_loop.simps [simp del]

definition executePlan ::
  "language_model \<Rightarrow> embedder \<Rightarrow> session \<Rightarrow> plan_step list \<Rightarrow> session \<Rightarrow> execution" where
  "executePlan api getClientSideEmbedding snap plan st =
     executePlan_loop api getClientSideEmbedding snap plan 0 [] [] st"

section \<open>Planner\<close>

text \<open>
  \<^verbatim>\<open>const callPlanner = async (prompt, conversationHistory) => {
    const historyStr = conversationHistory.map(m =>
      `${m.role}: ${m.parts[0].text}`).join('\n');
    const plannerPrompt = `...`;
    const planJsonString = await callGeminiAPI({ prompt: plannerPrompt });
    try {
      // Sanitize the response to extract only the JSON part
      const jsonMatch = planJsonString.match(/```json\n([\s\S]*?)\n```/);
      if (jsonMatch && jsonMatch[1]) { return JSON.parse(jsonMatch[1]); }
      return JSON.parse(planJsonString); // Fallback for raw JSON
    } catch (e) { console.error("Failed to parse plan:", e);
      // Create a simple fallback plan
      return [{ agent: 'WebSearchAgent', prompt }]; } };\<close>

  The regular expression matches at the first \<^verbatim>\<open>```json\<close> followed by a line feed, and its
  lazy group ends at the first line feed followed by \<^verbatim>\<open>```\<close> after that; when no such end
  follows the first opening, none follows a later one either. \<open>json_fence\<close> is the text of
  the group, \<open>None\<close> when there is no match.

  Rendering a message reads \<^verbatim>\<open>m.parts[0].text\<close>; the planner's message and the progress
  message have no \<^verbatim>\<open>parts\<close>, so the read raises a \<^verbatim>\<open>TypeError\<close>. This happens before the
  \<^verbatim>\<open>try\<close> block. Inside it, \<^verbatim>\<open>match\<close> on an absent answer raises a \<^verbatim>\<open>TypeError\<close> and
  \<^verbatim>\<open>JSON.parse\<close> may raise a \<^verbatim>\<open>SyntaxError\<close>; \<open>parse_response\<close> is the body of the block and
  both are caught.
\<close>

definition json_fence :: "string \<Rightarrow> string option" where
  "json_fence s =
     (case indexOf s ''```json\<newline>'' of
        None \<Rightarrow> None
      | Some p \<Rightarrow>
          let rest = drop (p + length ''```json\<newline>'') s
          in (case indexOf rest ''\<newline>```'' of
                None \<Rightarrow> None
              | Some q \<Rightarrow> Some (take q rest)))"

fun message_line :: "chat_message \<Rightarrow> js_error + string" where
  "message_line (UserMessage t img) = Inr (''user: '' @ t)"
| "message_line (ModelMessage t) = Inr (''model: '' @ t)"
| "message_line (AgentMessage r finalStep) = Inr (''model: '' @ toString (resp_text r))"
| "message_line (PlanMessage p) = Inl TypeError"
| "message_line (ThinkingMessage a cur n task) = Inl TypeError"

definition plannerPrompt :: "string \<Rightarrow> string \<Rightarrow> string" where
  "plannerPrompt historyStr prompt =
     ''\<newline>You are an expert planning agent. Your job is to analyze a user's ''
     @ ''prompt and the recent conversation history, then create a ''
     @ ''step-by-step plan to fulfill the request.\<newline>You have access to the ''
     @ ''following agents:\<newline>- KnowledgeAgent: Searches through uploaded ''
     @ ''documents to answer questions.\<newline>- WebSearchAgent: Searches the web for ''
     @ ''real-time information.\<newline>- CodeGenerationAgent: Writes code in various ''
     @ ''programming languages.\<newline>- ImageAnalysisAgent: Analyzes an attached ''
     @ ''image.\<newline>- SummarizationAgent: Summarizes a given text or ''
     @ ''document.\<newline>\<newline>Based on the user's prompt, create a JSON plan. The plan ''
     @ ''should be an array of steps. Each step must have an \"agent\" and a ''
     @ ''\"prompt\".\<newline>The \"prompt\" for a step can be the original user prompt, or ''
     @ ''it can be the output of a previous step, which you can represent with ''
     @ ''the placeholder \"{{step_1_output}}\", \"{{step_2_output}}\", ''
     @ ''etc.\<newline>\<newline>Conversation History:\<newline>''
     @ historyStr
     @ ''\<newline>\<newline>User Prompt: \"''
     @ prompt
     @ ''\"\<newline>\<newline>Generate the JSON plan now.\<newline>''"

definition fallback_plan :: "string \<Rightarrow> json" where
  "fallback_plan prompt =
     JArray [JObject [(units ''agent'', JString (units ''WebSearchAgent'')),
                      (units ''prompt'', JString (units prompt))]]"

definition parse_response :: "js_text \<Rightarrow> js_error + json" where
  "parse_response planJsonString =
     (case planJsonString of
        Text s \<Rightarrow>
          (case json_fence s of
             Some body \<Rightarrow> if body \<noteq> [] then JSON_parse body else JSON_parse s
           | None \<Rightarrow> JSON_parse s)
      | JsNull \<Rightarrow> Inl TypeError
      | JsUndefined \<Rightarrow> Inl TypeError)"

definition callPlanner ::
  "language_model \<Rightarrow> string \<Rightarrow> chat_message list \<Rightarrow> session \<Rightarrow> (js_error + json) \<times> session" where
  "callPlanner api prompt conversationHistory st =
     (case map_throwing message_line conversationHistory of
        Inl e \<Rightarrow> (Inl e, st)
      | Inr rendered \<Rightarrow>
          let historyStr = join ''\<newline>'' rendered;
              (planJsonString, st') = callGeminiAPI api (plannerPrompt historyStr prompt) None st
          in (case parse_response planJsonString of
                Inr plan \<Rightarrow> (Inr plan, st')
              | Inl e \<Rightarrow> (Inr (fallback_plan prompt), st')))"

section \<open>Reachable sessions\<close>

text \<open>
  The sessions the component can be in. \<^verbatim>\<open>setVectorStore\<close> is called by
  \<^verbatim>\<open>processAndEmbedFiles\<close> and by \<^verbatim>\<open>removeFile\<close> only; plan execution and every other
  event (typing, attaching an image, the model getting ready, a new message) change other
  fields, which rule \<open>other\<close> lets change at will. A handler reads the session of some
  earlier render, itself reachable.
\<close>

inductive reachable :: "language_model \<Rightarrow> extractor \<Rightarrow> embedder \<Rightarrow> session \<Rightarrow> bool"
  for api :: language_model and extractText :: extractor and getClientSideEmbedding :: embedder where
  start: "reachable api extractText getClientSideEmbedding initial"
| ingest:
    "reachable api extractText getClientSideEmbedding st \<Longrightarrow>
     reachable api extractText getClientSideEmbedding snap \<Longrightarrow>
     processAndEmbedFiles extractText getClientSideEmbedding snap files st = Some st' \<Longrightarrow>
     reachable api extractText getClientSideEmbedding st'"
| remove:
    "reachable api extractText getClientSideEmbedding st \<Longrightarrow>
     reachable api extractText getClientSideEmbedding snap \<Longrightarrow>
     reachable api extractText getClientSideEmbedding (removeFile snap removed st)"
| run:
    "reachable api extractText getClientSideEmbedding st \<Longrightarrow>
     reachable api extractText getClientSideEmbedding snap \<Longrightarrow>
     reachable api extractText getClientSideEmbedding
       (final (executePlan api getClientSideEmbedding snap plan st))"
| other:
    "reachable api extractText getClientSideEmbedding st \<Longrightarrow>
     reachable api extractText getClientSideEmbedding
       (st\<lparr>chatHistory := h, uploadedFiles := u, attachedImage := a, isLoading := l,
           isIndexing := x, error := e, modelReady := m\<rparr>)"

section \<open>Notions used in the statements and proofs\<close>

text \<open>
  \<open>embedded_by\<close>: every entry has the embedding the embedder gave for its chunk.
  \<open>api_text\<close> and \<open>api_effect\<close>: what \<^verbatim>\<open>callGeminiAPI\<close> returns and what it does to the
  session, for each outcome of the request. \<open>agent_reply\<close>: the response of \<^verbatim>\<open>callAgent\<close>
  to a call, which does not depend on the current session. \<open>untouched\<close>: the fields no
  handler writes.
\<close>

definition embedded_by :: "embedder \<Rightarrow> vector_entry list \<Rightarrow> bool" where
  "embedded_by emb vs = (\<forall>v \<in> set vs. embedding v \<noteq> None \<and> embedding v = emb (chunk v))"


definition api_text :: "api_outcome \<Rightarrow> js_text" where
  "api_text out = (case out of ApiText t \<Rightarrow> Text t | ApiNoText \<Rightarrow> JsUndefined | ApiFailure m \<Rightarrow> JsNull)"

definition api_effect :: "api_outcome \<Rightarrow> session \<Rightarrow> session" where
  "api_effect out st =
     (case out of
        ApiFailure m \<Rightarrow> st\<lparr>error := Some (''Generation failed: '' @ m), isLoading := False\<rparr>
      | _ \<Rightarrow> st)"

definition agent_reply ::
  "language_model \<Rightarrow> embedder \<Rightarrow> session \<Rightarrow> string \<times> string \<Rightarrow> js_error + agent_response" where
  "agent_reply api getClientSideEmbedding snap call =
     fst (callAgent api getClientSideEmbedding snap (fst call) (snd call) initial)"

definition untouched :: "session \<Rightarrow> session \<Rightarrow> bool" where
  "untouched st st' \<longleftrightarrow>
     chatHistory st' = chatHistory st \<and> uploadedFiles st' = uploadedFiles st \<and>
     vectorStore st' = vectorStore st \<and> isIndexing st' = isIndexing st \<and>
     modelReady st' = modelReady st"


text \<open>
  The key \<^verbatim>\<open>step_N_output\<close> and the placeholder \<^verbatim>\<open>{{key}}\<close>. \<open>dispatch_ok plan j call\<close>: the
  call is the agent of step \<open>j + 1\<close> with its template resolved against outputs whose
  keys are \<^verbatim>\<open>step_1_output\<close> to \<^verbatim>\<open>step_j_output\<close>. \<open>completed\<close>: the call got a response and
  message \<open>j\<close> of the messages added to the chat is that response.
\<close>

definition step_key :: "nat \<Rightarrow> string" where
  "step_key n = ''step_'' @ digits n @ ''_output''"

definition placeholder :: "string \<Rightarrow> string" where
  "placeholder key = ''{{'' @ key @ ''}}''"

definition dispatch_ok :: "plan_step list \<Rightarrow> nat \<Rightarrow> string \<times> string \<Rightarrow> bool" where
  "dispatch_ok plan j call \<longleftrightarrow>
     fst call = step_agent (plan ! j) \<and>
     (\<exists>outputs. map fst outputs = map step_key [1..<Suc j] \<and>
                snd call = substitute_outputs outputs (step_prompt (plan ! j)))"

definition completed ::
  "language_model \<Rightarrow> embedder \<Rightarrow> session \<Rightarrow> plan_step list \<Rightarrow> chat_message list \<Rightarrow> nat
   \<Rightarrow> string \<times> string \<Rightarrow> bool" where
  "completed api getClientSideEmbedding snap plan hs j call \<longleftrightarrow>
     (\<exists>resp. agent_reply api getClientSideEmbedding snap call = Inr resp \<and>
             hs ! j = AgentMessage resp (Suc j = length plan))"

text \<open>
  The invariant of the loop of \<^verbatim>\<open>executePlan\<close> before step \<open>i + 1\<close>, and what holds of its
  result: all steps dispatched and recorded when nothing was raised, and otherwise the
  last call is the one that raised and all calls before it are recorded.
\<close>

definition progress ::
  "language_model \<Rightarrow> embedder \<Rightarrow> session \<Rightarrow> plan_step list \<Rightarrow> chat_message list \<Rightarrow> nat
   \<Rightarrow> step_outputs \<Rightarrow> (string \<times> string) list \<Rightarrow> session \<Rightarrow> bool" where
  "progress api getClientSideEmbedding snap plan h0 i outputs calls st \<longleftrightarrow>
     i \<le> length plan \<and> length calls = i \<and> map fst outputs = map step_key [1..<Suc i] \<and>
     (\<exists>hs. chatHistory st = h0 @ hs \<and> length hs = i \<and>
        (\<forall>j<i. dispatch_ok plan j (calls ! j) \<and>
                completed api getClientSideEmbedding snap plan hs j (calls ! j)))"

definition trace_ok ::
  "language_model \<Rightarrow> embedder \<Rightarrow> session \<Rightarrow> plan_step list \<Rightarrow> chat_message list
   \<Rightarrow> execution \<Rightarrow> bool" where
  "trace_ok api getClientSideEmbedding snap plan h0 r \<longleftrightarrow>
     (\<exists>hs. chatHistory (final r) = h0 @ hs \<and>
        length (dispatched r) \<le> length plan \<and>
        (\<forall>j<length (dispatched r). dispatch_ok plan j (dispatched r ! j)) \<and>
        (case outcome r of
           None \<Rightarrow>
             length (dispatched r) = length plan \<and> length hs = length plan \<and>
             (\<forall>j<length plan. completed api getClientSideEmbedding snap plan hs j (dispatched r ! j))
         | Some e \<Rightarrow>
             dispatched r \<noteq> [] \<and> length hs = length (dispatched r) \<and>
             agent_reply api getClientSideEmbedding snap (last (dispatched r)) = Inl e \<and>
             (\<forall>j. Suc j < length (dispatched r) \<longrightarrow>
                  completed api getClientSideEmbedding snap plan hs j (dispatched r ! j))))"

text \<open>
  Keys without braces, and the messages of a history that have a text part together
  with the line \<^verbatim>\<open>callPlanner\<close> renders for them.
\<close>

definition brace_free :: "string \<Rightarrow> bool" where
  "brace_free key \<longleftrightarrow> CHR ''{'' \<notin> set key \<and> CHR ''}'' \<notin> set key"

fun has_parts :: "chat_message \<Rightarrow> bool" where
  "has_parts (UserMessage t img) = True"
| "has_parts (ModelMessage t) = True"
| "has_parts (AgentMessage r finalStep) = True"
| "has_parts (PlanMessage p) = False"
| "has_parts (ThinkingMessage a cur n task) = False"

fun rendered_line :: "chat_message \<Rightarrow> string" where
  "rendered_line (UserMessage t img) = ''user: '' @ t"
| "rendered_line (ModelMessage t) = ''model: '' @ t"
| "rendered_line (AgentMessage r finalStep) = ''model: '' @ toString (resp_text r)"
| "rendered_line (PlanMessage p) = []"
| "rendered_line (ThinkingMessage a cur n task) = []"

text \<open>
  Notions for the order of numbers. \<open>in_format\<close>: the number is in the form of the format
  of doubles. \<open>in_range\<close>: its exponent is not below \<open>-1074\<close>. \<open>number_key\<close> places the numbers
  other than \<^verbatim>\<open>NaN\<close> in a linear order that agrees with \<^verbatim>\<open><\<close> and \<^verbatim>\<open>===\<close>: first the side of
  the line (\<open>-1\<close> for \<^verbatim>\<open>-Infinity\<close>, \<open>1\<close> for \<^verbatim>\<open>Infinity\<close>), then the value. \<open>desc_key\<close> is the
  reverse order on the scores of results, and a result is \<open>rankable\<close> when its score is
  not \<^verbatim>\<open>NaN\<close> and in range.
\<close>

definition in_format :: "number \<Rightarrow> bool" where
  "in_format x =
     (case x of
        Finite s m e \<Rightarrow> m < 2 ^ 53 \<and> - 1074 \<le> e \<and> e \<le> 971 \<and> (2 ^ 52 \<le> m \<or> e = - 1074)
      | _ \<Rightarrow> True)"

definition in_range :: "number \<Rightarrow> bool" where
  "in_range x = (case x of Finite s m e \<Rightarrow> - 1074 \<le> e | _ \<Rightarrow> True)"



definition rankable :: "scored_entry \<Rightarrow> bool" where
  "rankable r \<longleftrightarrow> similarity r \<noteq> NaN \<and> in_range (similarity r)"

section \<open>Concrete sessions, plans and collaborators\<close>

text \<open>
  Small inputs on which the functions are run: a session whose model is ready, one file
  and its index, the numbers 1, 2, 0.5 and \<open>10\<^sup>1\<^sup>6\<close>, an index of four entries with a tie, an index and
  a query embedding whose dot products are rounded, collaborators with fixed answers,
  and a few plans.
\<close>

definition ready :: session where
  "ready = initial\<lparr>modelReady := True\<rparr>"

definition sky_file :: uploaded_file where
  "sky_file = \<lparr>file_name = ''sky.txt'', file_type = ''text/plain'', file_content = None,
               file_textContent = None\<rparr>"

definition sky_text :: extractor where
  "sky_text f = Some ''The sky is blue.''"

definition num_one :: number where
  "num_one = Finite False 4503599627370496 (- 52)"

definition num_two :: number where
  "num_two = Finite False 4503599627370496 (- 51)"

definition num_half :: number where
  "num_half = Finite False 4503599627370496 (- 53)"

definition num_big :: number where
  "num_big = Finite False 5000000000000000 1"

definition unit_embedding :: embedder where
  "unit_embedding t = Some [num_one, pos_zero]"

definition fixed_reply :: language_model where
  "fixed_reply p img = ApiText ''RESULT''"

definition indexed :: session where
  "indexed = ready\<lparr>uploadedFiles := [sky_file\<lparr>file_textContent := Some ''The sky is blue.''\<rparr>],
                   vectorStore := [\<lparr>fileName = ''sky.txt'', chunk = ''The sky is blue.'',
                                    embedding = Some [num_one, pos_zero]\<rparr>]\<rparr>"

definition shelf :: session where
  "shelf = ready\<lparr>vectorStore :=
             [\<lparr>fileName = ''a'', chunk = ''first'', embedding = Some [num_one, pos_zero]\<rparr>,
              \<lparr>fileName = ''a'', chunk = ''second'', embedding = Some [pos_zero, num_one]\<rparr>,
              \<lparr>fileName = ''b'', chunk = ''third'', embedding = Some [num_one, pos_zero]\<rparr>,
              \<lparr>fileName = ''b'', chunk = ''fourth'', embedding = Some [num_two, pos_zero]\<rparr>]\<rparr>"

definition cancelling_embedding :: embedder where
  "cancelling_embedding t = Some [num_big, num_one, fneg num_big]"

definition cancelling_shelf :: session where
  "cancelling_shelf = ready\<lparr>vectorStore :=
             [\<lparr>fileName = ''a'', chunk = ''ones'', embedding = Some [num_one, num_one, num_one]\<rparr>,
              \<lparr>fileName = ''b'', chunk = ''half'', embedding = Some [pos_zero, num_half, pos_zero]\<rparr>]\<rparr>"

definition foo_plan :: "plan_step list" where
  "foo_plan = [\<lparr>step_agent = ''FooAgent'', step_prompt = ''x''\<rparr>,
               \<lparr>step_agent = ''WebSearchAgent'', step_prompt = ''y''\<rparr>]"

definition later_plan :: "plan_step list" where
  "later_plan = [\<lparr>step_agent = ''WebSearchAgent'', step_prompt = ''see {{step_3_output}}''\<rparr>,
                 \<lparr>step_agent = ''WebSearchAgent'',
                  step_prompt = ''{{step_1_output}} then {{step_3_output}}''\<rparr>]"

definition use_plan :: "plan_step list" where
  "use_plan = [\<lparr>step_agent = ''WebSearchAgent'', step_prompt = ''x''\<rparr>,
               \<lparr>step_agent = ''CodeGenerationAgent'', step_prompt = ''use {{step_1_output}}''\<rparr>]"

definition twice_plan :: "plan_step list" where
  "twice_plan = [\<lparr>step_agent = ''WebSearchAgent'', step_prompt = ''x''\<rparr>,
                 \<lparr>step_agent = ''CodeGenerationAgent'',
                  step_prompt = ''{{step_1_output}} and {{step_1_output}}''\<rparr>]"

definition dollar_reply :: language_model where
  "dollar_reply p img = ApiText ''a$$b''"

definition picture :: uploaded_file where
  "picture = \<lparr>file_name = ''cat.png'', file_type = ''image/png'', file_content = Some ''aGk='',
              file_textContent = None\<rparr>"

definition attached :: session where
  "attached = ready\<lparr>uploadedFiles := [picture], attachedImage := Some picture\<rparr>"

definition image_plan :: "plan_step list" where
  "image_plan = [\<lparr>step_agent = ''ImageAnalysisAgent'', step_prompt = ''describe''\<rparr>,
                 \<lparr>step_agent = ''ImageAnalysisAgent'', step_prompt = ''again''\<rparr>]"

definition empty_reply :: language_model where
  "empty_reply p img = ApiText ''[]''"

definition fenced_reply :: language_model where
  "fenced_reply p img =
     ApiText ''Here is the plan: ```json\<newline>[{\"agent\":\"KnowledgeAgent\",\"prompt\":\"hi\"}]\<newline>```''"

definition prose_reply :: language_model where
  "prose_reply p img = ApiText ''I would search the web.''"

definition failing_api :: language_model where
  "failing_api p img = ApiFailure ''API Error: 500''"

section \<open>Properties of the chunker\<close>

lemma substring_window:
  "0 \<le> i \<Longrightarrow> 0 \<le> n \<Longrightarrow> substring s i (i + n) = take (nat n) (drop (nat i) s)"
  by (cases "i \<le> int (length s)") (auto simp: substring_def Let_def min_def max_def)

lemma chunk_count_done: "0 < d \<Longrightarrow> int len \<le> i \<Longrightarrow> chunk_count len i d = 0"
proof -
  assume d: "0 < d" and i: "int len \<le> i"
  have "(int len - i + d - 1) div d \<le> (d - 1) div d"
    using d i by (intro zdiv_mono1) simp_all
  moreover have "(d - 1) div d = 0" using d by simp
  ultimately have "(int len - i + d - 1) div d \<le> 0" by simp
  thus ?thesis by (simp add: chunk_count_def)
qed

lemma chunk_count_step:
  "0 < d \<Longrightarrow> i < int len \<Longrightarrow> chunk_count len i d = Suc (chunk_count len (i + d) d)"
proof -
  assume d: "0 < d" and i: "i < int len"
  have e: "int len - i + d - 1 = (int len - (i + d) + d - 1) + d" by simp
  have nn: "0 \<le> (int len - (i + d) + d - 1) div d"
    using d i by (simp add: pos_imp_zdiv_nonneg_iff)
  have "(int len - i + d - 1) div d = (int len - (i + d) + d - 1) div d + 1"
    using d by (subst e) simp
  thus ?thesis using nn by (simp add: chunk_count_def nat_add_distrib)
qed

lemma chunkText_loop_closed:
  assumes d: "0 < chunkSize - overlap"
  shows "chunkText_loop text chunkSize overlap i chunks =
         Some (chunks @ map (\<lambda>k. substring text (i + int k * (chunkSize - overlap))
                                     (i + int k * (chunkSize - overlap) + chunkSize))
                            [0..<chunk_count (length text) i (chunkSize - overlap)])"
proof (induction "nat (int (length text) - i)" arbitrary: i chunks rule: less_induct)
  case less
  let ?d = "chunkSize - overlap"
  show ?case
  proof (cases "i < int (length text)")
    case False
    then show ?thesis
      using d by (subst chunkText_loop.simps) (simp add: chunk_count_done)
  next
    case True
    have m: "nat (int (length text) - (i + ?d)) < nat (int (length text) - i)"
      using True d by linarith
    have shift: "map (\<lambda>k. substring text (i + int k * ?d) (i + int k * ?d + chunkSize))
                   [0..<Suc n] =
                 substring text i (i + chunkSize) #
                 map (\<lambda>k. substring text (i + ?d + int k * ?d) (i + ?d + int k * ?d + chunkSize))
                   [0..<n]" for n
      by (simp add: upt_conv_Cons map_Suc_upt[symmetric] algebra_simps del: upt_Suc)
    show ?thesis
      apply (subst chunkText_loop.simps)
      apply (simp only: True if_True less.hyps[OF m] chunk_count_step[OF d True] shift)
      apply simp
      done
  qed
qed

lemma chunkText_loop_Some_guard:
  "chunkText_loop text chunkSize overlap i chunks = Some y \<Longrightarrow>
   \<not> (chunkSize - overlap \<le> 0 \<and> i < int (length text))"
proof (erule chunkText_loop.raw_induct[rotated])
  fix lp tx sz ov j cs r
  assume IH: "\<And>tx sz ov j cs r. lp tx sz ov j cs = Some r \<Longrightarrow>
                \<not> (sz - ov \<le> 0 \<and> j < int (length tx))"
    and eq: "(if j < int (length tx)
              then lp tx sz ov (j + (sz - ov)) (cs @ [substring tx j (j + sz)])
              else Some cs) = Some r"
  show "\<not> (sz - ov \<le> 0 \<and> j < int (length tx))"
  proof
    assume h: "sz - ov \<le> 0 \<and> j < int (length tx)"
    with eq have "lp tx sz ov (j + (sz - ov)) (cs @ [substring tx j (j + sz)]) = Some r"
      by simp
    from IH[OF this] h show False by simp
  qed
qed

lemma chunkText_loop_diverges:
  assumes "chunkSize - overlap \<le> 0" "i < int (length text)"
  shows "chunkText_loop text chunkSize overlap i chunks = None"
  using chunkText_loop_Some_guard[of "text" chunkSize overlap i chunks] assms
  by (cases "chunkText_loop text chunkSize overlap i chunks") auto


lemma round_up_div:
  assumes d: "0 < (d::int)"
  shows "(a + d - 1) div d = (if a mod d = 0 then a div d else a div d + 1)"
proof -
  have e: "a + d - 1 = (a mod d + d - 1) + (a div d) * d"
    by (simp add: algebra_simps)
  have q: "(a + d - 1) div d = a div d + (a mod d + d - 1) div d"
    using d by (subst e) (simp only: div_mult_self1 [of d] ) 
  show ?thesis
  proof (cases "a mod d = 0")
    case True
    with q d show ?thesis by simp
  next
    case False
    have r: "0 \<le> a mod d - 1" "a mod d - 1 < d"
      using False d pos_mod_sign[of d a] pos_mod_bound[of d a] by linarith+
    have "a mod d + d - 1 = (a mod d - 1) + 1 * d" by simp
    hence "(a mod d + d - 1) div d = 1 + (a mod d - 1) div d"
      using d by (simp only: div_mult_self1 [of d])
    with r q False show ?thesis by (simp add: div_pos_pos_trivial)
  qed
qed

lemma ceil_div_int:
  assumes "0 < (d::int)"
  shows "\<lceil>real_of_int a / real_of_int d\<rceil> = (a + d - 1) div d"
  using assms by (simp add: ceiling_divide_eq_div round_up_div zdiv_zminus1_eq_if)

lemma chunk_count_zero_iff: "0 < d \<Longrightarrow> chunk_count len 0 d = 0 \<longleftrightarrow> len = 0"
proof
  assume d: "0 < d" and z: "chunk_count len 0 d = 0"
  show "len = 0"
  proof (rule ccontr)
    assume "len \<noteq> 0"
    hence "d \<le> int len + d - 1" by simp
    hence "d div d \<le> (int len + d - 1) div d" using d by (intro zdiv_mono1)
    with d z show False by (simp add: chunk_count_def)
  qed
next
  assume "0 < d" "len = 0"
  thus "chunk_count len 0 d = 0" by (simp add: chunk_count_def)
qed

text \<open>
  Claim C5. With \<open>overlap < chunkSize\<close> (and a size that is not negative) the chunker
  returns, the number of chunks is \<open>\<lceil>L / (chunkSize - overlap)\<rceil>\<close> for a text of length
  \<open>L\<close>, chunk \<open>k\<close> is the window of at most \<open>chunkSize\<close> characters that starts at
  \<open>k * (chunkSize - overlap)\<close>, what chunk \<open>k\<close> holds beyond the stride is what chunk
  \<open>k + 1\<close> starts with (its first \<open>overlap\<close> characters), and the result is empty exactly
  for the empty text.
\<close>

theorem chunkText_windows:
  assumes "overlap < chunkSize" and "0 \<le> chunkSize"
  shows "\<exists>chunks. chunkText text chunkSize overlap = Some chunks
           \<and> int (length chunks) =
               \<lceil>real (length text) / real_of_int (chunkSize - overlap)\<rceil>
           \<and> (\<forall>k < length chunks.
                 chunks ! k = take (nat chunkSize) (drop (k * nat (chunkSize - overlap)) text)
                 \<and> length (chunks ! k) \<le> nat chunkSize)
           \<and> (\<forall>k. Suc k < length chunks \<longrightarrow>
                 drop (nat (chunkSize - overlap)) (chunks ! k) = take (nat overlap) (chunks ! Suc k))
           \<and> (chunks = [] \<longleftrightarrow> text = [])"
proof -
  let ?d = "chunkSize - overlap"
  let ?n = "chunk_count (length text) 0 ?d"
  let ?w = "\<lambda>k. take (nat chunkSize) (drop (k * nat ?d) text)"
  let ?chunks = "map ?w [0..<?n]"
  have d: "0 < ?d" using assms by simp
  have pos: "nat (int k * ?d) = k * nat ?d" for k
    using d by (simp add: nat_mult_distrib)
  have run: "chunkText text chunkSize overlap = Some ?chunks"
    unfolding chunkText_def chunkText_loop_closed[OF d]
    using assms d by (simp add: substring_window pos)
  have cnt: "int (length ?chunks) = \<lceil>real (length text) / real_of_int ?d\<rceil>"
  proof -
    have "0 \<le> (int (length text) + ?d - 1) div ?d"
      using d by (simp add: pos_imp_zdiv_nonneg_iff)
    thus ?thesis
      using ceil_div_int[OF d, of "int (length text)"] by (simp add: chunk_count_def)
  qed
  have win: "\<forall>k < length ?chunks. ?chunks ! k = ?w k \<and> length (?chunks ! k) \<le> nat chunkSize"
    by simp
  have ov: "nat chunkSize - nat ?d = nat overlap"
    using assms by linarith
  have bnd: "\<forall>k. Suc k < length ?chunks \<longrightarrow>
               drop (nat ?d) (?chunks ! k) = take (nat overlap) (?chunks ! Suc k)"
  proof (intro allI impI)
    fix k assume k: "Suc k < length ?chunks"
    have "drop (nat ?d) (?w k) = take (nat chunkSize - nat ?d) (drop (nat ?d + k * nat ?d) text)"
      by (simp add: drop_take)
    also have "\<dots> = take (nat overlap) (?w (Suc k))"
      using assms by (simp add: ov min_def)
    finally show "drop (nat ?d) (?chunks ! k) = take (nat overlap) (?chunks ! Suc k)"
      using k by simp
  qed
  have emp: "?chunks = [] \<longleftrightarrow> text = []"
    using chunk_count_zero_iff[OF d, of "length text"] by simp
  from run cnt win bnd emp show ?thesis by blast
qed

theorem chunkText_windows_witness:
  "(1::int) < 4 \<and> (0::int) \<le> 4 \<and>
   (\<exists>chunks. chunkText ''abcdefghij'' 4 1 = Some chunks \<and> int (length chunks) = 4
      \<and> chunks ! 1 = ''defg'' \<and> chunks ! 3 = ''j''
      \<and> drop 3 (chunks ! 0) = take 1 (chunks ! 1))"
proof -
  have h: "(1::int) < 4" "(0::int) \<le> 4" by simp_all
  have run: "chunkText ''abcdefghij'' 4 1 = Some [''abcd'', ''defg'', ''ghij'', ''j'']"
    by (simp add: chunkText_def chunkText_loop.simps substring_def)
  from chunkText_windows[OF h, of "''abcdefghij''"] run h
  show ?thesis by simp
qed


lemma chunkText_array_loop_closed:
  assumes d: "0 < chunkSize - overlap" and a: "length chunks \<le> max_array_length"
  shows "chunkText_array_loop text chunkSize overlap i chunks =
         (if length chunks + chunk_count (length text) i (chunkSize - overlap) \<le> max_array_length
          then Inr (chunks @ map (\<lambda>k. substring text (i + int k * (chunkSize - overlap))
                                     (i + int k * (chunkSize - overlap) + chunkSize))
                            [0..<chunk_count (length text) i (chunkSize - overlap)])
          else Inl RangeError)"
  using a
proof (induction "nat (int (length text) - i)" arbitrary: i chunks rule: less_induct)
  case less
  let ?d = "chunkSize - overlap"
  show ?case
  proof (cases "i < int (length text)")
    case False
    then show ?thesis
      using d less.prems by (subst chunkText_array_loop.simps) (simp add: chunk_count_done)
  next
    case True
    have m: "nat (int (length text) - (i + ?d)) < nat (int (length text) - i)"
      using True d by linarith
    have shift: "map (\<lambda>k. substring text (i + int k * ?d) (i + int k * ?d + chunkSize))
                   [0..<Suc n] =
                 substring text i (i + chunkSize) #
                 map (\<lambda>k. substring text (i + ?d + int k * ?d) (i + ?d + int k * ?d + chunkSize))
                   [0..<n]" for n
      by (simp add: upt_conv_Cons map_Suc_upt[symmetric] algebra_simps del: upt_Suc)
    show ?thesis
    proof (cases "length chunks < max_array_length")
      case full: False
      then show ?thesis
        using True by (subst chunkText_array_loop.simps) (simp add: push_def chunk_count_step[OF d True])
    next
      case room: True
      hence l: "length (chunks @ [substring text i (i + chunkSize)]) \<le> max_array_length"
        by simp
      show ?thesis
        apply (subst chunkText_array_loop.simps)
        apply (simp only: True room if_True push_def sum.case less.hyps[OF m l] chunk_count_step[OF d True] shift)
        apply simp
        done
    qed
  qed
qed

lemma chunkText_array_loop_full:
  assumes "chunkSize - overlap \<le> 0" "i < int (length text)"
  shows "chunkText_array_loop text chunkSize overlap i chunks = Inl RangeError"
  using assms
proof (induction "max_array_length - length chunks" arbitrary: i chunks rule: less_induct)
  case less
  show ?case
  proof (cases "length chunks < max_array_length")
    case False
    then show ?thesis
      using less.prems by (subst chunkText_array_loop.simps) (simp add: push_def)
  next
    case True
    have m: "max_array_length - length (chunks @ [substring text i (i + chunkSize)])
             < max_array_length - length chunks" using True by simp
    have i: "i + (chunkSize - overlap) < int (length text)" using less.prems by simp
    show ?thesis
      using True less.prems less.hyps[OF m less.prems(1) i]
      by (subst chunkText_array_loop.simps) (simp add: push_def)
  qed
qed

lemma chunkText_array_ideal:
  "chunkText_array text chunkSize overlap =
     (case chunkText text chunkSize overlap of
        Some chunks \<Rightarrow> if length chunks \<le> max_array_length then Inr chunks else Inl RangeError
      | None \<Rightarrow> Inl RangeError)"
proof (cases "0 < chunkSize - overlap")
  case True
  show ?thesis
    unfolding chunkText_array_def chunkText_def
      chunkText_loop_closed[OF True]
    by (subst chunkText_array_loop_closed[OF True]) simp_all
next
  case False
  hence d: "chunkSize - overlap \<le> 0" by simp
  show ?thesis
  proof (cases "text = []")
    case True
    then show ?thesis
      by (simp add: chunkText_array_def chunkText_def chunkText_loop.simps
          chunkText_array_loop.simps)
  next
    case False
    hence "0 < int (length text)" by simp
    from chunkText_array_loop_full[OF d this] chunkText_loop_diverges[OF d this]
    show ?thesis by (simp add: chunkText_array_def chunkText_def)
  qed
qed

lemma chunk_count_le_length:
  assumes d: "0 < d"
  shows "chunk_count len 0 d \<le> len"
proof (cases "len = 0")
  case True
  then show ?thesis using d by (simp add: chunk_count_def)
next
  case False
  hence l: "1 \<le> int len" by simp
  have "0 \<le> (int len - 1) * (d - 1)" using l d by simp
  hence "int len + d - 1 \<le> int len * d" by (simp add: algebra_simps)
  hence "(int len + d - 1) div d \<le> (int len * d) div d" by (rule zdiv_mono1) (rule d)
  also have "\<dots> = int len" using d by simp
  finally show ?thesis by (simp add: chunk_count_def)
qed

lemma chunkText_array_agrees:
  assumes "overlap < chunkSize" and "length text \<le> max_array_length"
  shows "\<exists>chunks. chunkText text chunkSize overlap = Some chunks
                 \<and> chunkText_array text chunkSize overlap = Inr chunks"
proof -
  have d: "0 < chunkSize - overlap" using assms(1) by simp
  have "chunk_count (length text) 0 (chunkSize - overlap) \<le> max_array_length"
    using chunk_count_le_length[OF d, of "length text"] assms(2) by simp
  thus ?thesis
    unfolding chunkText_array_ideal unfolding chunkText_def chunkText_loop_closed[OF d]
    by simp
qed

text \<open>
  Claim C6 (as the program behaves). The chunker does not compare \<open>overlap\<close> with
  \<open>chunkSize\<close> and reports no error of configuration. When \<open>chunkSize \<le> overlap\<close> the
  stride is not positive: on the empty text the call returns the empty sequence and
  raises nothing; on any other text the loop stays inside the text and pushes chunks
  until the array cannot grow, and the call ends there with \<^verbatim>\<open>RangeError\<close>, the error of
  \<^verbatim>\<open>push\<close>.
\<close>

theorem chunkText_no_validation:
  assumes "chunkSize \<le> overlap"
  shows "chunkText_array text chunkSize overlap = (if text = [] then Inr [] else Inl RangeError)"
proof (cases "text = []")
  case True
  then show ?thesis by (simp add: chunkText_array_def chunkText_array_loop.simps)
next
  case False
  then show ?thesis
    using assms by (simp add: chunkText_array_def chunkText_array_loop_full)
qed

theorem chunkText_no_validation_witness:
  "(3::int) \<le> 5 \<and> chunkText_array ''ab'' 3 5 = Inl RangeError \<and> chunkText_array [] 3 5 = Inr []"
  using chunkText_no_validation[of 3 5 "''ab''"] chunkText_no_validation[of 3 5 "[]"]
  by simp

text \<open>
  The claim as written fails: with \<open>overlap = chunkSize = 2\<close> the call on the empty text
  returns the empty sequence, and no error is reported.
\<close>

theorem chunkText_overlap_counterexample:
  "chunkText_array [] 2 2 = Inr []"
  by (simp add: chunkText_array_def chunkText_array_loop.simps)

section \<open>Properties of numbers\<close>

lemma bit_length_upper: "n < 2 ^ bit_length n"
proof (induction n rule: bit_length.induct)
  case (1 n)
  show ?case
  proof (cases "n = 0")
    case True
    then show ?thesis by (subst bit_length.simps) simp
  next
    case False
    from 1[OF False] have "n div 2 < 2 ^ bit_length (n div 2)" .
    hence "n < 2 * 2 ^ bit_length (n div 2)" by linarith
    thus ?thesis using False by (subst bit_length.simps) simp
  qed
qed

lemma bit_length_lower: "0 < n \<Longrightarrow> 2 ^ (bit_length n - 1) \<le> n"
proof (induction n rule: bit_length.induct)
  case (1 n)
  hence n: "n \<noteq> 0" by simp
  show ?case
  proof (cases "n div 2 = 0")
    case True
    hence "bit_length (n div 2) = 0" by (subst bit_length.simps) simp
    hence "bit_length n = 1" using n by (subst bit_length.simps) simp
    thus ?thesis using 1(2) by simp
  next
    case False
    hence p: "0 < n div 2" by simp
    from 1(1)[OF n p] have h: "2 ^ (bit_length (n div 2) - 1) \<le> n div 2" .
    have "0 < bit_length (n div 2)" using False by (subst bit_length.simps) simp
    hence e: "2 ^ bit_length (n div 2) = (2::nat) * 2 ^ (bit_length (n div 2) - 1)"
      by (cases "bit_length (n div 2)") simp_all
    have "bit_length n - 1 = bit_length (n div 2)" using n by (subst bit_length.simps) simp
    thus ?thesis using h e by simp linarith
  qed
qed

lemma bit_length_pos: "0 < n \<Longrightarrow> 0 < bit_length n"
  by (subst bit_length.simps) simp


lemma round_half_even_lower: "M div 2 ^ k \<le> round_half_even M k"
  by (simp add: round_half_even_def Let_def)

lemma round_double_sign:
  assumes M: "0 < M" and E: "- 1074 \<le> E"
  shows "round_double s M E = Infinity s \<or> (\<exists>m e. round_double s M E = Finite s m e \<and> 0 < m)"
proof -
  define e where "e = max (E + int (bit_length M) - 53) (- 1074)"
  define m where "m = (if e \<le> E then M * 2 ^ nat (E - e) else round_half_even M (nat (e - E)))"
  have m: "0 < m"
  proof (cases "e \<le> E")
    case True
    then show ?thesis using M by (simp add: m_def)
  next
    case False
    hence k: "nat (e - E) = bit_length M - 53" using E unfolding e_def by linarith
    have "(2::nat) ^ nat (e - E) \<le> 2 ^ (bit_length M - 1)"
      unfolding k by (rule power_increasing) simp_all
    also have "\<dots> \<le> M" by (rule bit_length_lower[OF M])
    finally have "2 ^ nat (e - E) \<le> M" .
    hence "0 < M div 2 ^ nat (e - E)" by (simp add: div_greater_zero_iff)
    with round_half_even_lower[of M "nat (e - E)"] have "0 < round_half_even M (nat (e - E))"
      by linarith
    thus ?thesis using False by (simp add: m_def)
  qed
  have r: "round_double s M E =
           (if m = 2 ^ 53
            then (if 971 < e + 1 then Infinity s else Finite s (2 ^ 52) (e + 1))
            else (if 971 < e then Infinity s else Finite s m e))"
    using M unfolding round_double_def Let_def m_def e_def by simp
  show ?thesis
  proof (cases "m = 2 ^ 53")
    case True
    then show ?thesis unfolding r by (cases "971 < e + 1") simp_all
  next
    case False
    then show ?thesis unfolding r using m by (cases "971 < e") simp_all
  qed
qed







lemma positive_Finite: "less_number pos_zero (Finite s m e) \<longleftrightarrow> \<not> s \<and> 0 < m"
  by (auto simp: pos_zero_def aligned_def signed_mantissa_def zero_less_mult_iff)

lemma aligned_neg: "aligned (\<not> s) m e E = - aligned s m e E"
  by (simp add: aligned_def signed_mantissa_def)

lemma positive_difference:
  assumes "in_range a" "in_range b" "a \<noteq> NaN" "b \<noteq> NaN"
  shows "less_number pos_zero (case fsub b a of NaN \<Rightarrow> pos_zero | v \<Rightarrow> v) \<longleftrightarrow> less_number a b"
proof (cases "(a, b)" rule: less_number.cases)
  case (1 sa ma ea sb mb eb)
  let ?E = "min eb ea"
  let ?S = "aligned sb mb eb ?E + aligned (\<not> sa) ma ea ?E"
  have E: "- 1074 \<le> ?E" using assms(1,2) 1 by (simp add: in_range_def)
  have S: "?S = aligned sb mb eb ?E - aligned sa ma ea ?E" by (simp add: aligned_neg)
  have l: "less_number a b \<longleftrightarrow> 0 < ?S"
    using 1 by (simp add: aligned_neg min.commute[of eb ea])
  show ?thesis
  proof (cases "?S = 0")
    case True
    hence "fsub b a = Finite (sb \<and> \<not> sa) 0 (- 1074)" using 1 by (simp add: fsub_def Let_def)
    thus ?thesis using True l by (simp add: positive_Finite)
  next
    case False
    hence r: "fsub b a = round_double (?S < 0) (nat \<bar>?S\<bar>) ?E"
      using 1 by (simp add: fsub_def Let_def)
    have M: "0 < nat \<bar>?S\<bar>" using False by simp
    have pos: "(\<not> ?S < 0) = (0 < ?S)" using False by linarith
    from round_double_sign[OF M E, of "?S < 0"]
    show ?thesis
    proof
      assume "round_double (?S < 0) (nat \<bar>?S\<bar>) ?E = Infinity (?S < 0)"
      thus ?thesis unfolding r l using pos by (simp add: pos_zero_def)
    next
      assume "\<exists>m e. round_double (?S < 0) (nat \<bar>?S\<bar>) ?E = Finite (?S < 0) m e \<and> 0 < m"
      then obtain m e where "round_double (?S < 0) (nat \<bar>?S\<bar>) ?E = Finite (?S < 0) m e" "0 < m"
        by blast
      thus ?thesis unfolding r l using pos by (simp add: positive_Finite)
    qed
  qed
qed (use assms in \<open>auto simp: fsub_def pos_zero_def\<close>)

lemma bit_length_unique:
  assumes "2 ^ b \<le> n" "n < 2 ^ Suc b"
  shows "bit_length n = Suc b"
proof -
  have n: "0 < n" using assms(1) by (metis less_le_trans zero_less_numeral zero_less_power)
  from bit_length_pos[OF n] obtain c where c: "bit_length n = Suc c"
    by (cases "bit_length n") simp_all
  have "(2::nat) ^ b < 2 ^ bit_length n"
    using assms(1) bit_length_upper[of n] by (rule le_less_trans)
  hence 1: "b < bit_length n" by (rule power_less_imp_less_exp[rotated]) simp
  have "(2::nat) ^ (bit_length n - 1) < 2 ^ Suc b"
    using bit_length_lower[OF n] assms(2) by (rule le_less_trans)
  hence 2: "bit_length n - 1 < Suc b" by (rule power_less_imp_less_exp[rotated]) simp
  from 1 2 c show ?thesis by simp
qed

lemma bit_length_shift:
  assumes "0 < m"
  shows "bit_length (m * 2 ^ k) = bit_length m + k"
proof -
  from bit_length_pos[OF assms] obtain c where c: "bit_length m = Suc c"
    by (cases "bit_length m") simp_all
  have l: "2 ^ c \<le> m" using bit_length_lower[OF assms] c by simp
  have u: "m < 2 ^ Suc c" using bit_length_upper[of m] c by simp
  have "2 ^ (c + k) \<le> m * 2 ^ k" using l by (simp add: power_add)
  moreover have "m * 2 ^ k < 2 ^ Suc (c + k)"
    using u by (simp add: power_add)
  ultimately have "bit_length (m * 2 ^ k) = Suc (c + k)" by (rule bit_length_unique)
  thus ?thesis using c by simp
qed

lemma round_half_even_upper: "round_half_even M k \<le> M div 2 ^ k + 1"
  by (simp add: round_half_even_def Let_def)

lemma round_half_even_exact: "0 < k \<Longrightarrow> round_half_even (m * 2 ^ k) k = m"
  by (simp add: round_half_even_def Let_def)

lemma round_double_format: "in_format (round_double s M E)"
proof (cases "M = 0")
  case True
  then show ?thesis by (simp add: round_double_def in_format_def)
next
  case False
  hence M: "0 < M" by simp
  define b where "b = bit_length M"
  define e where "e = max (E + int b - 53) (- 1074)"
  define m where "m = (if e \<le> E then M * 2 ^ nat (E - e) else round_half_even M (nat (e - E)))"
  have e: "- 1074 \<le> e" and eb: "E + int b - 53 \<le> e" by (simp_all add: e_def)
  have b: "0 < b" unfolding b_def by (rule bit_length_pos[OF M])
  have lo: "2 ^ (b - 1) \<le> M" unfolding b_def by (rule bit_length_lower[OF M])
  have up: "M < 2 ^ b" unfolding b_def by (rule bit_length_upper)
  have A: "m \<le> 2 ^ 53"
  proof (cases "e \<le> E")
    case True
    hence "b + nat (E - e) \<le> 53" using eb by linarith
    hence "(2::nat) ^ (b + nat (E - e)) \<le> 2 ^ 53" by (rule power_increasing) simp
    moreover have "M * 2 ^ nat (E - e) < 2 ^ (b + nat (E - e))"
      using up by (simp add: power_add)
    ultimately show ?thesis using True by (simp add: m_def)
  next
    case False
    hence "b \<le> 53 + nat (e - E)" using eb by linarith
    hence "(2::nat) ^ b \<le> 2 ^ (53 + nat (e - E))" by (rule power_increasing) simp
    with up have "M < 2 ^ 53 * 2 ^ nat (e - E)" by (simp add: power_add)
    hence "M div 2 ^ nat (e - E) < 2 ^ 53" by (simp add: less_mult_imp_div_less)
    with round_half_even_upper[of M "nat (e - E)"] show ?thesis
      using False by (simp add: m_def)
  qed
  have B: "2 ^ 52 \<le> m" if "e \<noteq> - 1074"
  proof -
    from that have ee: "e = E + int b - 53" unfolding e_def by linarith
    show ?thesis
    proof (cases "e \<le> E")
      case True
      hence "52 = (b - 1) + nat (E - e)" using ee b by linarith
      hence "(2::nat) ^ 52 = 2 ^ (b - 1) * 2 ^ nat (E - e)" by (simp add: power_add[symmetric])
      also have "\<dots> \<le> M * 2 ^ nat (E - e)" using lo by simp
      finally show ?thesis using True by (simp add: m_def)
    next
      case False
      hence "b - 1 = 52 + nat (e - E)" using ee b by linarith
      hence "(2::nat) ^ 52 * 2 ^ nat (e - E) = 2 ^ (b - 1)" by (simp add: power_add)
      with lo have "2 ^ 52 * 2 ^ nat (e - E) \<le> M" by simp
      hence "2 ^ 52 \<le> M div 2 ^ nat (e - E)" by (simp add: less_eq_div_iff_mult_less_eq)
      with round_half_even_lower[of M "nat (e - E)"] show ?thesis
        using False by (simp add: m_def)
    qed
  qed
  have r: "round_double s M E =
           (if m = 2 ^ 53
            then (if 971 < e + 1 then Infinity s else Finite s (2 ^ 52) (e + 1))
            else (if 971 < e then Infinity s else Finite s m e))"
    using False unfolding round_double_def Let_def m_def e_def b_def by simp
  show ?thesis
  proof (cases "m = 2 ^ 53")
    case True
    then show ?thesis unfolding r using e by (simp add: in_format_def)
  next
    case False
    with A have "m < 2 ^ 53" by simp
    then show ?thesis unfolding r using False e B by (auto simp: in_format_def)
  qed
qed

lemma round_double_aligned:
  assumes f: "in_format (Finite s m e)" and m: "0 < m"
  shows "round_double s (m * 2 ^ nat (e + 1074)) (- 1074) = Finite s m e"
proof -
  define k where "k = nat (e + 1074)"
  from f have m53: "m < 2 ^ 53" and e: "- 1074 \<le> e" "e \<le> 971"
    and n: "2 ^ 52 \<le> m \<or> e = - 1074" by (simp_all add: in_format_def)
  have ek: "e = int k - 1074" using e by (simp add: k_def)
  have M: "m * 2 ^ k \<noteq> 0" using m by simp
  have bl: "bit_length (m * 2 ^ k) = bit_length m + k" by (rule bit_length_shift[OF m])
  have ex: "max (- 1074 + int (bit_length (m * 2 ^ k)) - 53) (- 1074) = e"
  proof (cases "2 ^ 52 \<le> m")
    case True
    hence "bit_length m = Suc 52" using m53 by (intro bit_length_unique) simp_all
    thus ?thesis unfolding bl using ek by simp
  next
    case False
    with n have z: "e = - 1074" "k = 0" using ek by simp_all
    have "(2::nat) ^ (bit_length m - 1) < 2 ^ 52"
      using bit_length_lower[OF m] False by linarith
    hence "bit_length m - 1 < 52" by (rule power_less_imp_less_exp[rotated]) simp
    thus ?thesis unfolding bl z by simp
  qed
  have mm: "(if e \<le> - 1074 then m * 2 ^ k * 2 ^ nat (- 1074 - e)
             else round_half_even (m * 2 ^ k) (nat (e - - 1074))) = m"
  proof (cases "k = 0")
    case True
    then show ?thesis using ek by simp
  next
    case False
    hence "nat (e - - 1074) = k" "\<not> e \<le> - 1074" using ek by simp_all
    thus ?thesis using False by (simp add: round_half_even_exact)
  qed
  show ?thesis
    unfolding k_def[symmetric] round_double_def Let_def ex mm
    using M m53 e by simp
qed

lemma signed_mantissa_pos:
  assumes "0 < n"
  shows "signed_mantissa s n \<noteq> 0" and "(signed_mantissa s n < 0) = s"
    and "nat \<bar>signed_mantissa s n\<bar> = n"
  using assms by (simp_all add: signed_mantissa_def)

lemma fadd_zero:
  assumes f: "in_format (Finite s m e)" and m: "0 < m"
  shows "fadd (Finite z 0 (- 1074)) (Finite s m e) = Finite s m e"
    and "fadd (Finite s m e) (Finite z 0 (- 1074)) = Finite s m e"
proof -
  from f have e: "- 1074 \<le> e" by (simp add: in_format_def)
  hence mn: "min (- 1074) e = - 1074" "min e (- 1074) = - 1074" by simp_all
  have S: "aligned z 0 (- 1074) (- 1074) + aligned s m e (- 1074) =
           signed_mantissa s (m * 2 ^ nat (e + 1074))"
    "aligned s m e (- 1074) + aligned z 0 (- 1074) (- 1074) =
           signed_mantissa s (m * 2 ^ nat (e + 1074))"
    by (simp_all add: aligned_def signed_mantissa_def)
  have nz: "signed_mantissa s (m * 2 ^ nat (e + 1074)) \<noteq> 0"
    and sg: "(signed_mantissa s (m * 2 ^ nat (e + 1074)) < 0) = s"
    and ab: "nat \<bar>signed_mantissa s (m * 2 ^ nat (e + 1074))\<bar> = m * 2 ^ nat (e + 1074)"
    using signed_mantissa_pos[of "m * 2 ^ nat (e + 1074)" s] m by simp_all
  show "fadd (Finite z 0 (- 1074)) (Finite s m e) = Finite s m e"
    unfolding fadd.simps Let_def mn S
    using nz by (simp only: sg ab round_double_aligned[OF f m] if_False)
  show "fadd (Finite s m e) (Finite z 0 (- 1074)) = Finite s m e"
    unfolding fadd.simps Let_def mn S
    using nz by (simp only: sg ab round_double_aligned[OF f m] if_False)
qed

section \<open>Properties of retrieval\<close>

lemma map_throwing_Inr:
  "(\<And>x. x \<in> set xs \<Longrightarrow> f x = Inr (g x)) \<Longrightarrow> map_throwing f xs = Inr (map g xs)"
  by (induction xs) simp_all









text \<open>
  Claim C4. On an empty index, or when the embedding of the query fails, \<open>findSimilarChunks\<close>
  returns the empty list; it does not raise.
\<close>

theorem findSimilarChunks_empty:
  "vectorStore snap = [] \<or> getClientSideEmbedding query = None \<Longrightarrow>
   findSimilarChunks getClientSideEmbedding snap query = Inr []"
  by (auto simp: findSimilarChunks_def)

section \<open>Retrieval on concrete indexes\<close>

lemma compare_rankable:
  assumes "rankable x" "rankable y"
  shows "less_number pos_zero (sortCompare by_similarity_desc x y)
         \<longleftrightarrow> less_number (similarity x) (similarity y)"
  using assms unfolding sortCompare_def by_similarity_desc_def rankable_def
  by (intro positive_difference) simp_all

lemma example_zero_sum: "fadd pos_zero pos_zero = pos_zero"
  by (simp add: pos_zero_def aligned_def signed_mantissa_def)

lemma example_sums:
  "fadd pos_zero num_one = num_one" "fadd pos_zero num_two = num_two"
  "fadd pos_zero num_half = num_half" "fadd pos_zero num_big = num_big"
  unfolding pos_zero_def num_one_def num_two_def num_half_def num_big_def
  by (rule fadd_zero(1); simp add: in_format_def)+

lemma example_sums_right:
  "fadd num_one pos_zero = num_one" "fadd num_two pos_zero = num_two"
  "fadd num_half (Finite True 0 (- 1074)) = num_half"
  unfolding pos_zero_def num_one_def num_two_def num_half_def num_big_def
  by (rule fadd_zero(2); simp add: in_format_def)+

lemma example_products:
  "fmul num_one num_one = num_one" "fmul num_one num_two = num_two"
  "fmul num_one num_half = num_half"
  "fmul num_big num_one = num_big" "fmul (fneg num_big) num_one = fneg num_big"
  "fmul num_one pos_zero = pos_zero" "fmul pos_zero num_one = pos_zero"
  "fmul pos_zero pos_zero = pos_zero" "fmul num_big pos_zero = pos_zero"
  "fmul (fneg num_big) pos_zero = Finite True 0 (- 1074)"
  by (simp_all add: pos_zero_def num_one_def num_two_def num_half_def num_big_def
      round_double_def round_half_even_def Let_def bit_length.simps)

lemma example_cancelling:
  "fadd num_big num_one = num_big" "fadd num_big (fneg num_big) = pos_zero"
  by (simp_all add: pos_zero_def num_one_def num_big_def aligned_def signed_mantissa_def
      round_double_def round_half_even_def Let_def bit_length.simps)

lemma example_numbers:
  "pos_zero \<noteq> NaN" "num_one \<noteq> NaN" "num_two \<noteq> NaN" "num_half \<noteq> NaN"
  "in_range pos_zero" "in_range num_one" "in_range num_two" "in_range num_half"
  by (simp_all add: in_range_def pos_zero_def num_one_def num_two_def num_half_def)

lemma example_order:
  "less_number num_one num_two" "less_number pos_zero num_two" "less_number pos_zero num_one"
  "\<not> less_number num_one num_one" "less_number pos_zero num_half"
  by (simp_all add: pos_zero_def num_one_def num_two_def num_half_def aligned_def
      signed_mantissa_def)


text \<open>
  The scores are those of doubles. For the query embedding \<open>(10\<^sup>1\<^sup>6, 1, -10\<^sup>1\<^sup>6)\<close> the entry
  with the embedding \<open>(1, 1, 1)\<close> gets the score \<open>0\<close>, since \<open>10\<^sup>1\<^sup>6 + 1\<close> is rounded to
  \<open>10\<^sup>1\<^sup>6\<close>, and it is ranked after the entry with the embedding \<open>(0, 0.5, 0)\<close>, whose score
  is \<open>0.5\<close>.
\<close>

lemma cancelling_query:
  "findSimilarChunks cancelling_embedding cancelling_shelf ''q'' =
   Inr [\<lparr>fileName = ''b'', chunk = ''half'', embedding = Some [pos_zero, num_half, pos_zero],
         similarity = num_half\<rparr>,
        \<lparr>fileName = ''a'', chunk = ''ones'', embedding = Some [num_one, num_one, num_one],
         similarity = pos_zero\<rparr>]"
  by (simp add: findSimilarChunks_def cancelling_shelf_def ready_def initial_def
      cancelling_embedding_def
      dotProduct_def dotProduct_loop.simps sort_js_def compare_rankable rankable_def
      vector_entry.defs example_zero_sum example_sums example_sums_right example_products
      example_cancelling example_numbers example_order)



theorem findSimilarChunks_empty_witness:
  "vectorStore ready = [] \<and> findSimilarChunks unit_embedding ready ''q'' = Inr []
   \<and> findSimilarChunks (\<lambda>t. None) shelf ''q'' = Inr []"
  using findSimilarChunks_empty[of ready unit_embedding "''q''"]
        findSimilarChunks_empty[of shelf "\<lambda>t. None" "''q''"]
  by (simp add: ready_def initial_def)

section \<open>Properties of ingest\<close>

lemma chunkText_defaults: "\<exists>chunks. chunkText t 1000 200 = Some chunks"
  unfolding chunkText_def by (subst chunkText_loop_closed) simp_all

lemma zip_map_same: "zip xs (map f xs) = map (\<lambda>x. (x, f x)) xs"
  by (induction xs) simp_all

lemma embedded_by_append: "embedded_by emb (xs @ ys) = (embedded_by emb xs \<and> embedded_by emb ys)"
  by (auto simp: embedded_by_def)

lemma embedded_entries:
  "embedded_by emb (filter (\<lambda>v. embedding v \<noteq> None)
              (map (\<lambda>(c, e). \<lparr>fileName = n, chunk = c, embedding = e\<rparr>)
                   (zip chunks (map emb chunks))))"
  unfolding embedded_by_def
proof
  fix v
  assume "v \<in> set (filter (\<lambda>v. embedding v \<noteq> None)
              (map (\<lambda>(c, e). \<lparr>fileName = n, chunk = c, embedding = e\<rparr>)
                   (zip chunks (map emb chunks))))"
  hence ne: "embedding v \<noteq> None"
    and "v \<in> (\<lambda>c. \<lparr>fileName = n, chunk = c, embedding = emb c\<rparr>) ` set chunks"
    by (simp_all add: zip_map_same image_image)
  then obtain c where "v = \<lparr>fileName = n, chunk = c, embedding = emb c\<rparr>" by blast
  hence "embedding v = emb (chunk v)" by simp
  with ne show "embedding v \<noteq> None \<and> embedding v = emb (chunk v)" by simp
qed

lemma embed_files_image:
  "prefix ''image/'' (file_type f) \<Longrightarrow>
   embed_files extractText emb (f # fs) acc st = embed_files extractText emb fs acc st"
  by simp

lemma embed_files_unparsed:
  "\<not> prefix ''image/'' (file_type f) \<Longrightarrow> extractText f = None \<Longrightarrow>
   embed_files extractText emb (f # fs) acc st =
   embed_files extractText emb fs acc (st\<lparr>error := Some (''Could not parse '' @ file_name f @ ''.'')\<rparr>)"
  by (simp add: parseFileContent_def)

lemma embed_files_no_text:
  "\<not> prefix ''image/'' (file_type f) \<Longrightarrow> extractText f = Some [] \<Longrightarrow>
   embed_files extractText emb (f # fs) acc st = embed_files extractText emb fs acc st"
  by (simp add: parseFileContent_def)


lemma embed_files_text:
  assumes "\<not> prefix ''image/'' (file_type f)" "extractText f = Some t" "t \<noteq> []"
      and "chunkText t 1000 200 = Some chunks"
  shows "embed_files extractText emb (f # fs) acc st =
         embed_files extractText emb fs
           (acc @ filter (\<lambda>v. embedding v \<noteq> None)
                    (map (\<lambda>(c, e). \<lparr>fileName = file_name f, chunk = c, embedding = e\<rparr>)
                         (zip chunks (map emb chunks))))
           (st\<lparr>uploadedFiles :=
                 map (\<lambda>g. if file_name g = file_name f
                           then g\<lparr>file_textContent := Some t\<rparr> else g)
                     (uploadedFiles st)\<rparr>)"
  using assms by (simp add: parseFileContent_def Let_def del: chunkText_def)


lemma embed_files_appends:
  "\<exists>new st'. embed_files extractText emb files acc st = Some (acc @ new, st')
     \<and> vectorStore st' = vectorStore st \<and> embedded_by emb new"
proof (induction files arbitrary: acc st)
  case Nil
  have "embed_files extractText emb [] acc st = Some (acc @ [], st)" by simp
  moreover have "embedded_by emb []" by (simp add: embedded_by_def)
  ultimately show ?case by blast
next
  case (Cons f fs)
  show ?case
  proof (cases "prefix ''image/'' (file_type f)")
    case True
    from Cons.IH[of acc st] show ?thesis
      by (simp only: embed_files_image[OF True])
  next
    case notimg: False
    show ?thesis
    proof (cases "extractText f")
      case None
      let ?st1 = "st\<lparr>error := Some (''Could not parse '' @ file_name f @ ''.'')\<rparr>"
      have "vectorStore ?st1 = vectorStore st" by simp
      with Cons.IH[of acc ?st1] show ?thesis
        by (simp only: embed_files_unparsed[where extractText = extractText, OF notimg None])
    next
      case (Some t)
      show ?thesis
      proof (cases "t = []")
        case True
        with Some have "extractText f = Some []" by simp
        from Cons.IH[of acc st] show ?thesis
          by (simp only: embed_files_no_text[where extractText = extractText, OF notimg \<open>extractText f = Some []\<close>])
      next
        case False
        obtain chunks where ch: "chunkText t 1000 200 = Some chunks"
          using chunkText_defaults by blast
        let ?st2 = "st\<lparr>uploadedFiles :=
                           map (\<lambda>g. if file_name g = file_name f
                                     then g\<lparr>file_textContent := Some t\<rparr> else g)
                               (uploadedFiles st)\<rparr>"
        let ?add = "filter (\<lambda>v. embedding v \<noteq> None)
                      (map (\<lambda>(c, e). \<lparr>fileName = file_name f, chunk = c, embedding = e\<rparr>)
                           (zip chunks (map emb chunks)))"
        have run: "embed_files extractText emb (f # fs) acc st =
                   embed_files extractText emb fs (acc @ ?add) ?st2"
          by (rule embed_files_text[where extractText = extractText, OF notimg Some False ch])
        have add: "embedded_by emb ?add" by (rule embedded_entries)
        have vs: "vectorStore ?st2 = vectorStore st" by simp
        from Cons.IH[of "acc @ ?add" ?st2]
        obtain new st' where
          r: "embed_files extractText emb fs (acc @ ?add) ?st2 = Some ((acc @ ?add) @ new, st')"
          and v: "vectorStore st' = vectorStore ?st2"
          and e: "embedded_by emb new"
          by blast
        have "embed_files extractText emb (f # fs) acc st = Some (acc @ (?add @ new), st')"
          using run r by (simp only: append_assoc)
        moreover have "vectorStore st' = vectorStore st" using v vs by (rule trans)
        moreover have "embedded_by emb (?add @ new)"
          using add e by (simp only: embedded_by_append)
        ultimately show ?thesis by blast
      qed
    qed
  qed
qed

lemma processAndEmbedFiles_appends:
  "\<exists>new st'. processAndEmbedFiles extractText emb snap files st = Some st'
     \<and> vectorStore st' = vectorStore st @ new \<and> embedded_by emb new"
proof (cases "modelReady snap")
  case False
  hence "processAndEmbedFiles extractText emb snap files st =
         Some (st\<lparr>error := Some ''Document model not ready.''\<rparr>)"
    by (simp add: processAndEmbedFiles_def)
  moreover have "vectorStore (st\<lparr>error := Some ''Document model not ready.''\<rparr>) = vectorStore st @ []"
    by simp
  moreover have "embedded_by emb []" by (simp add: embedded_by_def)
  ultimately show ?thesis by blast
next
  case True
  from embed_files_appends[of extractText emb files "[]" "st\<lparr>isIndexing := True\<rparr>"]
  obtain new st1 where
    ef: "embed_files extractText emb files [] (st\<lparr>isIndexing := True\<rparr>) = Some (new, st1)"
    and vs: "vectorStore st1 = vectorStore st"
    and nw: "embedded_by emb new"
    by auto
  let ?st' = "st1\<lparr>vectorStore := vectorStore st1 @ new, isIndexing := False\<rparr>"
  have "processAndEmbedFiles extractText emb snap files st = Some ?st'"
    using True ef by (simp add: processAndEmbedFiles_def)
  moreover have "vectorStore ?st' = vectorStore st @ new" using vs by simp
  ultimately show ?thesis using nw by blast
qed

lemma vectorStore_removeFile:
  "vectorStore (removeFile snap removed st) = filter (\<lambda>v. fileName v \<noteq> removed) (vectorStore st)"
  by (simp add: removeFile_def Let_def)

section \<open>What the handlers read and write\<close>

lemma callGeminiAPI_eq:
  "callGeminiAPI api p img st = (api_text (api p img), api_effect (api p img) st)"
  by (simp add: callGeminiAPI_def api_text_def api_effect_def split: api_outcome.splits)

lemma api_effect_fields [simp]:
  "chatHistory (api_effect out st) = chatHistory st"
  "uploadedFiles (api_effect out st) = uploadedFiles st"
  "vectorStore (api_effect out st) = vectorStore st"
  "attachedImage (api_effect out st) = attachedImage st"
  "isIndexing (api_effect out st) = isIndexing st"
  "modelReady (api_effect out st) = modelReady st"
  by (simp_all add: api_effect_def split: api_outcome.splits)


lemma untouched_api_effect [simp]: "untouched st (api_effect out st)"
  by (simp add: untouched_def)

lemma untouched_refl [simp]: "untouched st st"
  by (simp add: untouched_def)

lemma handleKnowledgeQuery_frame:
  "fst (handleKnowledgeQuery api emb snap p st) = fst (handleKnowledgeQuery api emb snap p st')
   \<and> untouched st (snd (handleKnowledgeQuery api emb snap p st))"
  by (simp add: handleKnowledgeQuery_def callGeminiAPI_eq Let_def split: sum.splits)

lemma handleWebSearchQuery_frame:
  "fst (handleWebSearchQuery api p st) = fst (handleWebSearchQuery api p st')
   \<and> untouched st (snd (handleWebSearchQuery api p st))"
  by (simp add: handleWebSearchQuery_def callGeminiAPI_eq Let_def)

lemma handleCodeGenerationQuery_frame:
  "fst (handleCodeGenerationQuery api p st) = fst (handleCodeGenerationQuery api p st')
   \<and> untouched st (snd (handleCodeGenerationQuery api p st))"
  by (simp add: handleCodeGenerationQuery_def callGeminiAPI_eq Let_def)

lemma handleSummarizationQuery_frame:
  "fst (handleSummarizationQuery api snap p st) = fst (handleSummarizationQuery api snap p st')
   \<and> untouched st (snd (handleSummarizationQuery api snap p st))"
  by (simp add: handleSummarizationQuery_def callGeminiAPI_eq Let_def split: option.splits)

lemma handleImageAnalysisQuery_frame:
  "fst (handleImageAnalysisQuery api snap p st) = fst (handleImageAnalysisQuery api snap p st')
   \<and> untouched st (snd (handleImageAnalysisQuery api snap p st))"
  by (simp add: handleImageAnalysisQuery_def callGeminiAPI_eq Let_def untouched_def split: option.splits)

lemma callAgent_frame:
  "fst (callAgent api emb snap a p st) = fst (callAgent api emb snap a p st')
   \<and> untouched st (snd (callAgent api emb snap a p st))"
  unfolding callAgent_def
  using handleKnowledgeQuery_frame[of api emb snap p st st']
        handleWebSearchQuery_frame[of api p st st']
        handleCodeGenerationQuery_frame[of api p st st']
        handleSummarizationQuery_frame[of api snap p st st']
        handleImageAnalysisQuery_frame[of api snap p st st']
  by simp

lemma fst_callAgent:
  "fst (callAgent api emb snap a p st) = agent_reply api emb snap (a, p)"
  using callAgent_frame[of api emb snap a p st initial] by (simp add: agent_reply_def)

lemma callAgent_untouched: "untouched st (snd (callAgent api emb snap a p st))"
  using callAgent_frame[of api emb snap a p st st] by simp

section \<open>Output keys\<close>

lemma digits_nonempty: "digits n \<noteq> []"
  by (subst digits.simps) simp

lemma digit_char_inj:
  "a < 10 \<Longrightarrow> b < 10 \<Longrightarrow> ''0123456789'' ! a = ''0123456789'' ! b \<Longrightarrow> a = (b::nat)"
proof -
  assume a: "a < 10" and b: "b < 10" and e: "''0123456789'' ! a = ''0123456789'' ! b"
  have "distinct ''0123456789''" by simp
  moreover have "a < length ''0123456789''" "b < length ''0123456789''"
    using a b by simp_all
  ultimately show "a = b" using e by (simp only: nth_eq_iff_index_eq)
qed

lemma digit_char_brace_free:
  "d < 10 \<Longrightarrow> ''0123456789'' ! d \<noteq> CHR ''{'' \<and> ''0123456789'' ! d \<noteq> CHR ''}''"
proof -
  assume "d < 10"
  hence "d < length ''0123456789''" by simp
  hence "''0123456789'' ! d \<in> set ''0123456789''" by (rule nth_mem)
  thus ?thesis by auto
qed

lemma digits_inj: "digits n = digits m \<Longrightarrow> n = m"
proof (induction n arbitrary: m rule: digits.induct)
  case (1 n)
  show ?case
  proof (cases "n < 10")
    case True
    hence dn: "digits n = [''0123456789'' ! n]" by (subst digits.simps) simp
    show ?thesis
    proof (cases "m < 10")
      case mt: True
      hence "digits m = [''0123456789'' ! m]" by (subst digits.simps) simp
      with dn "1.prems" have "''0123456789'' ! n = (''0123456789'' ! m)" by simp
      thus ?thesis using True mt by (rule digit_char_inj[rotated 2])
    next
      case False
      hence "digits m = digits (m div 10) @ [''0123456789'' ! (m mod 10)]"
        by (subst digits.simps) simp
      with dn "1.prems" digits_nonempty[of "m div 10"] show ?thesis by simp
    qed
  next
    case False
    hence dn: "digits n = digits (n div 10) @ [''0123456789'' ! (n mod 10)]"
      by (subst digits.simps) simp
    show ?thesis
    proof (cases "m < 10")
      case True
      hence "digits m = [''0123456789'' ! m]" by (subst digits.simps) simp
      with dn "1.prems" digits_nonempty[of "n div 10"] show ?thesis by simp
    next
      case mf: False
      hence "digits m = digits (m div 10) @ [''0123456789'' ! (m mod 10)]"
        by (subst digits.simps) simp
      with dn "1.prems" have e1: "digits (n div 10) = digits (m div 10)"
        and e2: "''0123456789'' ! (n mod 10) = (''0123456789'' ! (m mod 10))" by simp_all
      from "1.IH"[OF False e1] have "n div 10 = m div 10" .
      moreover from e2 have "n mod 10 = m mod 10" by (intro digit_char_inj) simp_all
      ultimately show ?thesis by (metis div_mult_mod_eq)
    qed
  qed
qed

lemma step_key_inj: "step_key n = step_key m \<Longrightarrow> n = m"
  by (simp add: step_key_def digits_inj)

lemma assign_new: "key \<notin> fst ` set kvs \<Longrightarrow> assign kvs key v = kvs @ [(key, v)]"
  by (induction kvs) auto

lemma assign_next_key:
  assumes "map fst outs = map step_key [1..<Suc i]"
  shows "map fst (assign outs (step_key (Suc i)) v) = map step_key [1..<Suc (Suc i)]"
proof -
  have "step_key (Suc i) \<notin> set (map fst outs)"
    unfolding assms using step_key_inj by fastforce
  hence "assign outs (step_key (Suc i)) v = outs @ [(step_key (Suc i), v)]"
    by (intro assign_new) simp
  thus ?thesis using assms by simp
qed

section \<open>The loop of plan execution\<close>

lemma executePlan_loop_done:
  "\<not> i < length plan \<Longrightarrow>
   executePlan_loop api emb snap plan i outs calls st =
   \<lparr>outcome = None, dispatched = calls, stepOutputs = outs, final = st\<rparr>"
  by (subst executePlan_loop.simps) simp

lemma executePlan_loop_raise:
  assumes "i < length plan"
      and "callAgent api emb snap (step_agent (plan ! i))
             (substitute_outputs outs (step_prompt (plan ! i)))
             (st\<lparr>chatHistory := chatHistory st
                  @ [ThinkingMessage (step_agent (plan ! i)) (i + 1) (length plan)
                       (substitute_outputs outs (step_prompt (plan ! i)))]\<rparr>) = (Inl e, st2)"
  shows "executePlan_loop api emb snap plan i outs calls st =
         \<lparr>outcome = Some e,
          dispatched = calls @ [(step_agent (plan ! i), substitute_outputs outs (step_prompt (plan ! i)))],
          stepOutputs = outs, final = st2\<rparr>"
  using assms by (subst executePlan_loop.simps) (simp add: Let_def)

lemma executePlan_loop_next:
  assumes "i < length plan"
      and "callAgent api emb snap (step_agent (plan ! i))
             (substitute_outputs outs (step_prompt (plan ! i)))
             (st\<lparr>chatHistory := chatHistory st
                  @ [ThinkingMessage (step_agent (plan ! i)) (i + 1) (length plan)
                       (substitute_outputs outs (step_prompt (plan ! i)))]\<rparr>) = (Inr resp, st2)"
  shows "executePlan_loop api emb snap plan i outs calls st =
         executePlan_loop api emb snap plan (Suc i)
           (assign outs (step_key (Suc i)) (resp_text resp))
           (calls @ [(step_agent (plan ! i), substitute_outputs outs (step_prompt (plan ! i)))])
           (st2\<lparr>chatHistory := butlast (chatHistory st2)
                  @ [AgentMessage resp (Suc i = length plan)]\<rparr>)"
  using assms by (subst executePlan_loop.simps) (simp add: Let_def step_key_def)

lemma vectorStore_executePlan_loop:
  "vectorStore (final (executePlan_loop api emb snap plan i outs calls st)) = vectorStore st"
proof (induction "length plan - i" arbitrary: i outs calls st)
  case 0
  then show ?case by (simp add: executePlan_loop_done)
next
  case (Suc n)
  hence lt: "i < length plan" and n: "n = length plan - Suc i" by simp_all
  let ?p = "substitute_outputs outs (step_prompt (plan ! i))"
  let ?st1 = "st\<lparr>chatHistory := chatHistory st
                  @ [ThinkingMessage (step_agent (plan ! i)) (i + 1) (length plan) ?p]\<rparr>"
  obtain res st2 where ca: "callAgent api emb snap (step_agent (plan ! i)) ?p ?st1 = (res, st2)"
    by (cases "callAgent api emb snap (step_agent (plan ! i)) ?p ?st1")
  have "untouched ?st1 st2"
    using callAgent_untouched[of ?st1 api emb snap "step_agent (plan ! i)" ?p] ca by simp
  hence vs: "vectorStore st2 = vectorStore st" by (simp add: untouched_def)
  show ?case
  proof (cases res)
    case (Inl e)
    show ?thesis
      using executePlan_loop_raise[OF lt ca[unfolded Inl]] vs by simp
  next
    case (Inr resp)
    show ?thesis
      using executePlan_loop_next[OF lt ca[unfolded Inr]] Suc.hyps(1)[OF n] vs by simp
  qed
qed

lemma vectorStore_executePlan:
  "vectorStore (final (executePlan api emb snap plan st)) = vectorStore st"
  by (simp add: executePlan_def vectorStore_executePlan_loop)

section \<open>The invariant of the vector index\<close>

lemma set_insert_sorted: "set (insert_sorted c x ys) = insert x (set ys)"
  by (induction ys) auto

lemma set_sort_js: "set (sort_js c xs) = set xs"
  by (induction xs) (simp_all add: sort_js_def set_insert_sorted)

lemma findSimilarChunks_results:
  assumes inv: "\<forall>v \<in> set (vectorStore snap). embedding v \<noteq> None"
  shows "\<exists>rs. findSimilarChunks emb snap q = Inr rs
           \<and> (\<forall>r \<in> set rs. embedding r \<noteq> None
                              \<and> vector_entry.truncate r \<in> set (vectorStore snap))"
proof (cases "vectorStore snap = [] \<or> \<not> modelReady snap")
  case True
  then show ?thesis by (simp add: findSimilarChunks_def)
next
  case run: False
  show ?thesis
  proof (cases "emb q")
    case None
    with run show ?thesis by (simp add: findSimilarChunks_def)
  next
    case (Some qe)
    let ?g = "\<lambda>v. vector_entry.extend v
                 \<lparr>similarity = (case embedding v of Some e \<Rightarrow> dotProduct_loop qe e 0 pos_zero
                                                   | None \<Rightarrow> NaN)\<rparr>"
    have "map_throwing
            (\<lambda>v. case dotProduct qe (embedding v) of
                   Inl e \<Rightarrow> Inl e
                 | Inr s \<Rightarrow> Inr (vector_entry.extend v \<lparr>similarity = s\<rparr>))
            (vectorStore snap) = Inr (map ?g (vectorStore snap))"
    proof (rule map_throwing_Inr)
      fix v assume "v \<in> set (vectorStore snap)"
      with inv obtain e where "embedding v = Some e" by auto
      thus "(case dotProduct qe (embedding v) of
               Inl e \<Rightarrow> Inl e
             | Inr s \<Rightarrow> Inr (vector_entry.extend v \<lparr>similarity = s\<rparr>)) = Inr (?g v)"
        by (simp add: dotProduct_def)
    qed
    hence res: "findSimilarChunks emb snap q =
                Inr (take 3 (sort_js by_similarity_desc (map ?g (vectorStore snap))))"
      using run Some by (simp add: findSimilarChunks_def)
    have "embedding r \<noteq> None \<and> vector_entry.truncate r \<in> set (vectorStore snap)"
      if "r \<in> set (take 3 (sort_js by_similarity_desc (map ?g (vectorStore snap))))" for r
    proof -
      from that have "r \<in> set (sort_js by_similarity_desc (map ?g (vectorStore snap)))"
        by (rule in_set_takeD)
      then obtain v where v: "v \<in> set (vectorStore snap)" and r: "r = ?g v"
        by (auto simp: set_sort_js)
      have "vector_entry.truncate r = v" "embedding r = embedding v"
        by (simp_all add: r vector_entry.defs)
      with v inv show ?thesis by simp
    qed
    with res show ?thesis by blast
  qed
qed

lemma reachable_embeddings:
  "reachable api extractText emb st \<Longrightarrow> \<forall>v \<in> set (vectorStore st). embedding v \<noteq> None"
proof (induction rule: reachable.induct)
  case start
  then show ?case by (simp add: initial_def)
next
  case (ingest st snap files st')
  from processAndEmbedFiles_appends[of extractText emb snap files st] ingest.hyps(3)
  obtain new where "vectorStore st' = vectorStore st @ new" "embedded_by emb new" by auto
  with ingest.IH(1) show ?case by (auto simp: embedded_by_def)
next
  case (remove st snap removed)
  then show ?case by (simp add: vectorStore_removeFile)
next
  case (run st snap plan)
  then show ?case by (simp add: vectorStore_executePlan)
next
  case (other st h u a l x e m)
  then show ?case by simp
qed

text \<open>
  Claim C7. In every reachable session each entry of the index has an embedding. Ingest
  appends entries whose embedding succeeded (the value \<open>getClientSideEmbedding\<close> gave for
  their chunk) and leaves the stored entries as they are, removal keeps a sublist of the
  entries, plan execution leaves the index alone, and every query result is a stored entry
  (with its score added), so it has an embedding.
\<close>

theorem vector_index_embeddings:
  assumes "reachable api extractText emb st"
  shows "(\<forall>v \<in> set (vectorStore st). embedding v \<noteq> None)
       \<and> (\<forall>snap files. \<exists>new st'.
             processAndEmbedFiles extractText emb snap files st = Some st'
             \<and> vectorStore st' = vectorStore st @ new
             \<and> (\<forall>v \<in> set new. embedding v \<noteq> None \<and> embedding v = emb (chunk v)))
       \<and> (\<forall>snap removed.
             vectorStore (removeFile snap removed st)
             = filter (\<lambda>v. fileName v \<noteq> removed) (vectorStore st))
       \<and> (\<forall>snap plan. vectorStore (final (executePlan api emb snap plan st)) = vectorStore st)
       \<and> (\<forall>query. \<exists>rs. findSimilarChunks emb st query = Inr rs
             \<and> (\<forall>r \<in> set rs. embedding r \<noteq> None
                                \<and> vector_entry.truncate r \<in> set (vectorStore st)))"
proof (intro conjI allI)
  show inv: "\<forall>v \<in> set (vectorStore st). embedding v \<noteq> None"
    using assms by (rule reachable_embeddings)
  show "\<exists>new st'. processAndEmbedFiles extractText emb snap files st = Some st'
             \<and> vectorStore st' = vectorStore st @ new
             \<and> (\<forall>v \<in> set new. embedding v \<noteq> None \<and> embedding v = emb (chunk v))"
    for snap files
    using processAndEmbedFiles_appends[of extractText emb snap files st]
    unfolding embedded_by_def .
  show "vectorStore (removeFile snap removed st)
        = filter (\<lambda>v. fileName v \<noteq> removed) (vectorStore st)" for snap removed
    by (rule vectorStore_removeFile)
  show "vectorStore (final (executePlan api emb snap plan st)) = vectorStore st" for snap plan
    by (rule vectorStore_executePlan)
  show "\<exists>rs. findSimilarChunks emb st query = Inr rs
             \<and> (\<forall>r \<in> set rs. embedding r \<noteq> None
                                \<and> vector_entry.truncate r \<in> set (vectorStore st))" for query
    using findSimilarChunks_results[OF inv] .
qed

lemma reachable_ready: "reachable fixed_reply sky_text unit_embedding ready"
proof -
  have "ready = initial\<lparr>chatHistory := [], uploadedFiles := [], attachedImage := None,
                        isLoading := False, isIndexing := False, error := None,
                        modelReady := True\<rparr>"
    by (simp add: ready_def initial_def)
  thus ?thesis using reachable.other[OF reachable.start] by metis
qed

lemma ingest_sky:
  "processAndEmbedFiles sky_text unit_embedding ready [sky_file]
     (ready\<lparr>uploadedFiles := [sky_file]\<rparr>) = Some indexed"
  by (simp add: processAndEmbedFiles_def parseFileContent_def sky_text_def sky_file_def
      unit_embedding_def ready_def initial_def indexed_def chunkText_def chunkText_loop.simps
      substring_def Let_def)

lemma reachable_indexed: "reachable fixed_reply sky_text unit_embedding indexed"
proof -
  have "ready\<lparr>uploadedFiles := [sky_file]\<rparr> =
        ready\<lparr>chatHistory := [], uploadedFiles := [sky_file], attachedImage := None,
              isLoading := False, isIndexing := False, error := None, modelReady := True\<rparr>"
    by (simp add: ready_def initial_def)
  hence "reachable fixed_reply sky_text unit_embedding (ready\<lparr>uploadedFiles := [sky_file]\<rparr>)"
    using reachable.other[OF reachable_ready] by metis
  from reachable.ingest[OF this reachable_ready ingest_sky] show ?thesis .
qed

theorem vector_index_embeddings_witness:
  "reachable fixed_reply sky_text unit_embedding indexed
   \<and> vectorStore indexed \<noteq> []
   \<and> map embedding (vectorStore indexed) = [Some [num_one, pos_zero]]
   \<and> (\<exists>rs. findSimilarChunks unit_embedding indexed ''sky?'' = Inr rs
           \<and> (\<forall>r \<in> set rs. embedding r \<noteq> None))"
proof -
  note t = vector_index_embeddings[OF reachable_indexed]
  have s: "vectorStore indexed \<noteq> []" by (simp add: indexed_def)
  from t have i: "\<forall>v \<in> set (vectorStore indexed). embedding v \<noteq> None" by (rule conjunct1)
  from t have "\<forall>query. \<exists>rs. findSimilarChunks unit_embedding indexed query = Inr rs
             \<and> (\<forall>r \<in> set rs. embedding r \<noteq> None
                                \<and> vector_entry.truncate r \<in> set (vectorStore indexed))"
    by (elim conjE)
  then obtain rs where "findSimilarChunks unit_embedding indexed ''sky?'' = Inr rs"
    and "\<forall>r \<in> set rs. embedding r \<noteq> None \<and> vector_entry.truncate r \<in> set (vectorStore indexed)"
    by blast
  hence q: "\<exists>rs. findSimilarChunks unit_embedding indexed ''sky?'' = Inr rs
           \<and> (\<forall>r \<in> set rs. embedding r \<noteq> None)" by blast
  have m: "map embedding (vectorStore indexed) = [Some [num_one, pos_zero]]" by (simp add: indexed_def)
  from reachable_indexed s m q show ?thesis by (intro conjI)
qed

section \<open>What a plan execution dispatches and records\<close>

lemma completed_cong:
  "hs' ! j = hs ! j \<Longrightarrow> completed api emb snap plan hs j call \<Longrightarrow>
   completed api emb snap plan hs' j call"
  by (simp add: completed_def)

lemma progress_start: "progress api emb snap plan (chatHistory st) 0 [] [] st"
  by (simp add: progress_def)

lemma trace_ok_done:
  assumes "progress api emb snap plan h0 i outs calls st" and "\<not> i < length plan"
  shows "trace_ok api emb snap plan h0 (executePlan_loop api emb snap plan i outs calls st)"
proof -
  from assms have i: "i = length plan" by (simp add: progress_def)
  from assms(1) obtain hs where hs: "chatHistory st = h0 @ hs" "length hs = i"
    "\<forall>j<i. dispatch_ok plan j (calls ! j) \<and> completed api emb snap plan hs j (calls ! j)"
    and len: "length calls = i"
    unfolding progress_def by blast
  show ?thesis
    unfolding executePlan_loop_done[OF assms(2)] trace_ok_def
    using hs len i by (intro exI[of _ hs]) simp
qed


lemma executePlan_loop_trace:
  "progress api emb snap plan h0 i outs calls st \<Longrightarrow>
   trace_ok api emb snap plan h0 (executePlan_loop api emb snap plan i outs calls st)"
proof (induction "length plan - i" arbitrary: i outs calls st)
  case 0
  hence "\<not> i < length plan" by simp
  with "0.prems" show ?case by (rule trace_ok_done)
next
  case (Suc n)
  hence lt: "i < length plan" and n: "n = length plan - Suc i" by simp_all
  from Suc.prems obtain hs where len: "length calls = i"
    and keys: "map fst outs = map step_key [1..<Suc i]"
    and hist: "chatHistory st = h0 @ hs" and lhs: "length hs = i"
    and old: "\<forall>j<i. dispatch_ok plan j (calls ! j) \<and> completed api emb snap plan hs j (calls ! j)"
    unfolding progress_def by blast
  let ?a = "step_agent (plan ! i)"
  let ?p = "substitute_outputs outs (step_prompt (plan ! i))"
  let ?think = "ThinkingMessage ?a (i + 1) (length plan) ?p"
  let ?st1 = "st\<lparr>chatHistory := chatHistory st @ [?think]\<rparr>"
  let ?calls = "calls @ [(?a, ?p)]"
  obtain res st2 where ca: "callAgent api emb snap ?a ?p ?st1 = (res, st2)"
    by (cases "callAgent api emb snap ?a ?p ?st1")
  have "untouched ?st1 st2"
    using callAgent_untouched[of ?st1 api emb snap ?a ?p] ca by simp
  hence h2: "chatHistory st2 = h0 @ hs @ [?think]" using hist by (simp add: untouched_def)
  have rep: "agent_reply api emb snap (?a, ?p) = res"
    using fst_callAgent[of api emb snap ?a ?p ?st1] ca by simp
  have disp: "dispatch_ok plan i (?a, ?p)"
    unfolding dispatch_ok_def using keys by auto
  have dall: "\<forall>j<Suc i. dispatch_ok plan j (?calls ! j)"
    using old disp len by (auto simp: nth_append less_Suc_eq)
  show ?case
  proof (cases res)
    case (Inl e)
    let ?hs = "hs @ [?think]"
    have r: "executePlan_loop api emb snap plan i outs calls st =
             \<lparr>outcome = Some e, dispatched = ?calls, stepOutputs = outs, final = st2\<rparr>"
      by (rule executePlan_loop_raise[OF lt ca[unfolded Inl]])
    have c: "\<forall>j. Suc j < length ?calls \<longrightarrow> completed api emb snap plan ?hs j (?calls ! j)"
    proof (intro allI impI)
      fix j assume "Suc j < length ?calls"
      hence j: "j < i" using len by simp
      with old have "completed api emb snap plan hs j (calls ! j)" by simp
      hence "completed api emb snap plan ?hs j (calls ! j)"
        using j lhs by (intro completed_cong[of ?hs j hs]) (simp_all add: nth_append)
      thus "completed api emb snap plan ?hs j (?calls ! j)"
        using j len by (simp add: nth_append)
    qed
    show ?thesis
      unfolding r trace_ok_def
      using h2 dall c len lhs lt rep Inl by (intro exI[of _ ?hs]) simp
  next
    case (Inr resp)
    let ?msg = "AgentMessage resp (Suc i = length plan)"
    let ?hs = "hs @ [?msg]"
    let ?st3 = "st2\<lparr>chatHistory := butlast (chatHistory st2) @ [?msg]\<rparr>"
    let ?outs = "assign outs (step_key (Suc i)) (resp_text resp)"
    have r: "executePlan_loop api emb snap plan i outs calls st =
             executePlan_loop api emb snap plan (Suc i) ?outs ?calls ?st3"
      by (rule executePlan_loop_next[OF lt ca[unfolded Inr]])
    have h3: "chatHistory ?st3 = h0 @ ?hs"
      using h2 by (simp add: butlast_append)
    have call: "completed api emb snap plan ?hs j (?calls ! j)" if "j < Suc i" for j
    proof (cases "j < i")
      case True
      with old have "completed api emb snap plan hs j (calls ! j)" by simp
      hence "completed api emb snap plan ?hs j (calls ! j)"
        using True lhs by (intro completed_cong[of ?hs j hs]) (simp_all add: nth_append)
      thus ?thesis using True len by (simp add: nth_append)
    next
      case False
      with that have "j = i" by simp
      thus ?thesis using rep Inr len lhs by (simp add: completed_def nth_append)
    qed
    have "progress api emb snap plan h0 (Suc i) ?outs ?calls ?st3"
      unfolding progress_def
      using lt len assign_next_key[OF keys] h3 lhs dall call
      by (intro conjI exI[of _ ?hs]) simp_all
    from Suc.hyps(1)[OF n this] show ?thesis unfolding r .
  qed
qed

lemma executePlan_trace:
  "trace_ok api emb snap plan (chatHistory st) (executePlan api emb snap plan st)"
  unfolding executePlan_def by (rule executePlan_loop_trace[OF progress_start])

section \<open>Dispatch\<close>

lemma callAgent_unknown:
  assumes "a \<notin> {''KnowledgeAgent'', ''WebSearchAgent'', ''CodeGenerationAgent'',
                ''SummarizationAgent'', ''ImageAnalysisAgent''}"
  shows "callAgent api emb snap a p st =
         (Inr \<lparr>resp_agent = a, resp_text = Text (''Error: Unknown agent \"'' @ a @ ''\".''),
               resp_sources = None\<rparr>, st)"
  using assms unfolding callAgent_def by (simp only: insert_iff empty_iff de_Morgan_disj if_False)

lemma agent_reply_unknown:
  assumes "a \<notin> {''KnowledgeAgent'', ''WebSearchAgent'', ''CodeGenerationAgent'',
                ''SummarizationAgent'', ''ImageAnalysisAgent''}"
  shows "agent_reply api emb snap (a, p) =
         Inr \<lparr>resp_agent = a, resp_text = Text (''Error: Unknown agent \"'' @ a @ ''\".''),
              resp_sources = None\<rparr>"
  unfolding agent_reply_def fst_conv snd_conv callAgent_unknown[OF assms] ..

lemma handleKnowledgeQuery_no_raise:
  assumes "\<forall>v \<in> set (vectorStore snap). embedding v \<noteq> None"
  shows "\<exists>resp. fst (handleKnowledgeQuery api emb snap p st) = Inr resp"
proof -
  from findSimilarChunks_results[OF assms, of emb p]
  obtain rs where "findSimilarChunks emb snap p = Inr rs" by blast
  thus ?thesis
    by (simp add: handleKnowledgeQuery_def callGeminiAPI_eq Let_def)
qed

lemma agent_reply_no_raise:
  assumes "\<forall>v \<in> set (vectorStore snap). embedding v \<noteq> None"
  shows "\<exists>resp. agent_reply api emb snap call = Inr resp"
  unfolding agent_reply_def callAgent_def
  using handleKnowledgeQuery_no_raise[OF assms, of api emb "snd call" initial]
  by (simp add: handleWebSearchQuery_def handleCodeGenerationQuery_def
        handleSummarizationQuery_def handleImageAnalysisQuery_def callGeminiAPI_eq Let_def
      split: option.splits)

lemma executePlan_completes:
  assumes "\<forall>v \<in> set (vectorStore snap). embedding v \<noteq> None"
  shows "outcome (executePlan api emb snap plan st) = None
         \<and> length (dispatched (executePlan api emb snap plan st)) = length plan"
proof -
  let ?r = "executePlan api emb snap plan st"
  have t: "trace_ok api emb snap plan (chatHistory st) ?r" by (rule executePlan_trace)
  show ?thesis
  proof (cases "outcome ?r")
    case None
    with t show ?thesis by (auto simp: trace_ok_def)
  next
    case (Some e)
    with t have "agent_reply api emb snap (last (dispatched ?r)) = Inl e"
      by (auto simp: trace_ok_def)
    with agent_reply_no_raise[OF assms, of api emb "last (dispatched ?r)"]
    show ?thesis by simp
  qed
qed

lemma step_recorded:
  assumes t: "trace_ok api emb snap plan h0 r" and j: "j < length (dispatched r)"
      and ok: "agent_reply api emb snap (dispatched r ! j) = Inr resp"
  shows "chatHistory (final r) ! (length h0 + j) = AgentMessage resp (Suc j = length plan)
         \<and> (Suc j < length plan \<longrightarrow> Suc j < length (dispatched r))"
proof -
  from t obtain hs where h: "chatHistory (final r) = h0 @ hs"
    and c: "case outcome r of
           None \<Rightarrow>
             length (dispatched r) = length plan \<and> length hs = length plan \<and>
             (\<forall>j<length plan. completed api emb snap plan hs j (dispatched r ! j))
         | Some e \<Rightarrow>
             dispatched r \<noteq> [] \<and> length hs = length (dispatched r) \<and>
             agent_reply api emb snap (last (dispatched r)) = Inl e \<and>
             (\<forall>j. Suc j < length (dispatched r) \<longrightarrow>
                  completed api emb snap plan hs j (dispatched r ! j))"
    unfolding trace_ok_def by blast
  have "completed api emb snap plan hs j (dispatched r ! j)
        \<and> (Suc j < length plan \<longrightarrow> Suc j < length (dispatched r))"
  proof (cases "outcome r")
    case None
    with c j show ?thesis by simp
  next
    case (Some e)
    with c have ne: "dispatched r \<noteq> []"
      and l: "agent_reply api emb snap (last (dispatched r)) = Inl e"
      and a: "\<forall>j. Suc j < length (dispatched r) \<longrightarrow>
                  completed api emb snap plan hs j (dispatched r ! j)" by simp_all
    have "Suc j \<noteq> length (dispatched r)"
    proof
      assume "Suc j = length (dispatched r)"
      hence "j = length (dispatched r) - 1" by simp
      hence "last (dispatched r) = dispatched r ! j" using last_conv_nth[OF ne] by simp
      with l ok show False by simp
    qed
    with j have "Suc j < length (dispatched r)" by simp
    with a show ?thesis by simp
  qed
  moreover from this ok have "hs ! j = AgentMessage resp (Suc j = length plan)"
    by (auto simp: completed_def)
  ultimately show ?thesis using h by simp
qed


lemma trace_ok_dispatch:
  "trace_ok api emb snap plan h0 r \<Longrightarrow> j < length (dispatched r) \<Longrightarrow>
   dispatch_ok plan j (dispatched r ! j)"
  unfolding trace_ok_def by blast

lemma trace_ok_length:
  "trace_ok api emb snap plan h0 r \<Longrightarrow> length (dispatched r) \<le> length plan"
  unfolding trace_ok_def by blast

text \<open>
  Claim C8. A step whose agent name is none of the five handled names gets the response
  \<open>Error: Unknown agent "<name>".\<close> from \<open>callAgent\<close>, which leaves the session as it is
  and raises nothing. When every entry of the index of the render has an embedding (as in
  every reachable session, lemma \<open>reachable_embeddings\<close>), the execution of a plan that
  holds such a step \<open>j\<close> ends without an exception, it dispatches every step of the plan,
  the steps after \<open>j\<close> included, each to the agent the plan names, and the message it
  records for step \<open>j\<close> is that response.
\<close>

theorem unknown_agent_soft_failure:
  assumes "j < length plan"
      and "step_agent (plan ! j) \<notin> {''KnowledgeAgent'', ''WebSearchAgent'', ''CodeGenerationAgent'',
                ''SummarizationAgent'', ''ImageAnalysisAgent''}"
      and "\<forall>v \<in> set (vectorStore snap). embedding v \<noteq> None"
  shows "callAgent api emb snap (step_agent (plan ! j)) p st' =
           (Inr \<lparr>resp_agent = step_agent (plan ! j),
                 resp_text = Text (''Error: Unknown agent \"'' @ step_agent (plan ! j) @ ''\".''),
                 resp_sources = None\<rparr>, st')
       \<and> outcome (executePlan api emb snap plan st) = None
       \<and> length (dispatched (executePlan api emb snap plan st)) = length plan
       \<and> (\<forall>k < length plan.
             fst (dispatched (executePlan api emb snap plan st) ! k) = step_agent (plan ! k))
       \<and> length (chatHistory (final (executePlan api emb snap plan st))) =
           length (chatHistory st) + length plan
       \<and> chatHistory (final (executePlan api emb snap plan st)) ! (length (chatHistory st) + j) =
           AgentMessage
             \<lparr>resp_agent = step_agent (plan ! j),
              resp_text = Text (''Error: Unknown agent \"'' @ step_agent (plan ! j) @ ''\".''),
              resp_sources = None\<rparr> (Suc j = length plan)"
proof -
  let ?r = "executePlan api emb snap plan st"
  let ?a = "step_agent (plan ! j)"
  let ?resp = "\<lparr>resp_agent = ?a, resp_text = Text (''Error: Unknown agent \"'' @ ?a @ ''\".''),
                resp_sources = None\<rparr>"
  have t: "trace_ok api emb snap plan (chatHistory st) ?r" by (rule executePlan_trace)
  have c: "outcome ?r = None" "length (dispatched ?r) = length plan"
    using executePlan_completes[OF assms(3), of api emb plan st] by simp_all
  have d: "fst (dispatched ?r ! k) = step_agent (plan ! k)" if "k < length plan" for k
  proof -
    from that c have "k < length (dispatched ?r)" by simp
    with t have "dispatch_ok plan k (dispatched ?r ! k)" by (rule trace_ok_dispatch)
    thus ?thesis by (simp add: dispatch_ok_def)
  qed
  from t c have l: "length (chatHistory (final ?r)) = length (chatHistory st) + length plan"
    unfolding trace_ok_def by auto
  have j: "j < length (dispatched ?r)" using assms(1) c by simp
  have "agent_reply api emb snap (fst (dispatched ?r ! j), snd (dispatched ?r ! j)) = Inr ?resp"
    unfolding d[OF assms(1)] by (rule agent_reply_unknown[OF assms(2)])
  hence ok: "agent_reply api emb snap (dispatched ?r ! j) = Inr ?resp" by simp
  from step_recorded[OF t j ok]
  have rec: "chatHistory (final ?r) ! (length (chatHistory st) + j) =
             AgentMessage ?resp (Suc j = length plan)" by (rule conjunct1)
  from callAgent_unknown[OF assms(2), of api emb snap p st'] c d l rec
  show ?thesis by (intro conjI allI impI)
qed

lemma foo_plan_run:
  "chatHistory (final (executePlan fixed_reply unit_embedding ready foo_plan ready)) =
     [AgentMessage \<lparr>resp_agent = ''FooAgent'',
                    resp_text = Text ''Error: Unknown agent \"FooAgent\".'',
                    resp_sources = None\<rparr> False,
      AgentMessage \<lparr>resp_agent = ''WebSearchAgent'', resp_text = Text ''RESULT'',
                    resp_sources = None\<rparr> True]
   \<and> map fst (dispatched (executePlan fixed_reply unit_embedding ready foo_plan ready)) =
     [''FooAgent'', ''WebSearchAgent'']"
  by (simp add: executePlan_def executePlan_loop.simps foo_plan_def callAgent_def
      handleWebSearchQuery_def callGeminiAPI_def fixed_reply_def ready_def initial_def Let_def)

theorem unknown_agent_soft_failure_witness:
  "(0::nat) < length foo_plan
   \<and> step_agent (foo_plan ! 0) = ''FooAgent''
   \<and> vectorStore ready = []
   \<and> outcome (executePlan fixed_reply unit_embedding ready foo_plan ready) = None
   \<and> length (dispatched (executePlan fixed_reply unit_embedding ready foo_plan ready)) = 2
   \<and> fst (dispatched (executePlan fixed_reply unit_embedding ready foo_plan ready) ! 1) =
       ''WebSearchAgent''
   \<and> chatHistory (final (executePlan fixed_reply unit_embedding ready foo_plan ready)) ! 0 =
       AgentMessage \<lparr>resp_agent = ''FooAgent'',
                     resp_text = Text ''Error: Unknown agent \"FooAgent\".'',
                     resp_sources = None\<rparr> False"
proof -
  have h: "0 < length foo_plan"
    "step_agent (foo_plan ! 0) \<notin> {''KnowledgeAgent'', ''WebSearchAgent'', ''CodeGenerationAgent'',
                ''SummarizationAgent'', ''ImageAnalysisAgent''}"
    "\<forall>v \<in> set (vectorStore ready). embedding v \<noteq> None"
    by (simp_all add: foo_plan_def ready_def initial_def)
  from unknown_agent_soft_failure[OF h, of fixed_reply unit_embedding "''''" ready ready]
  show ?thesis by (simp add: foo_plan_def ready_def initial_def)
qed

section \<open>Placeholder substitution\<close>

lemma indexOf_Some:
  "indexOf s pat = Some p \<Longrightarrow> s = take p s @ pat @ drop (p + length pat) s"
proof (induction s arbitrary: p)
  case Nil
  then show ?case by (simp split: if_splits)
next
  case (Cons c cs)
  show ?case
  proof (cases "prefix pat (c # cs)")
    case True
    with Cons.prems have "p = 0" by simp
    moreover from True obtain r where "c # cs = pat @ r" by (auto simp: prefix_def)
    ultimately show ?thesis by simp
  next
    case False
    with Cons.prems obtain q where q: "indexOf cs pat = Some q" and p: "p = Suc q" by auto
    from Cons.IH[OF q] show ?thesis by (simp add: p)
  qed
qed

lemma replace_cases:
  "replace s pat rep = s
   \<or> (\<exists>u v r. s = u @ pat @ v \<and> replace s pat rep = u @ r @ v)"
proof (cases "indexOf s pat")
  case None
  then show ?thesis by (simp add: replace_def)
next
  case (Some p)
  from indexOf_Some[OF Some] have "s = take p s @ pat @ drop (p + length pat) s" .
  moreover have "replace s pat rep =
                 take p s @ getSubstitution pat s p rep @ drop (p + length pat) s"
    using Some by (simp add: replace_def)
  ultimately show ?thesis by blast
qed

lemma placeholder_unfold: "placeholder k = CHR ''{'' # CHR ''{'' # k @ ''}}''"
  by (simp add: placeholder_def)

lemma placeholder_length: "length (placeholder k) = length k + 4"
  by (simp add: placeholder_def)

lemma placeholder_nth1: "placeholder k ! 1 = CHR ''{''"
  unfolding placeholder_unfold by simp

lemma placeholder_inner:
  assumes "brace_free k" "2 \<le> n" "n < length (placeholder k)"
  shows "placeholder k ! n \<noteq> CHR ''{''"
proof -
  from assms(2) have m: "n = Suc (Suc (n - 2))" by simp
  have e: "placeholder k ! n = (k @ ''}}'') ! (n - 2)"
    unfolding placeholder_unfold by (subst m) (simp only: nth_Cons_Suc)
  have "n - 2 < length (k @ ''}}'')" using assms(2,3) by (simp add: placeholder_length)
  hence i: "(k @ ''}}'') ! (n - 2) \<in> set (k @ ''}}'')" by (rule nth_mem)
  have "CHR ''{'' \<notin> set (k @ ''}}'')" using assms(1) by (simp add: brace_free_def)
  with i have "(k @ ''}}'') ! (n - 2) \<noteq> CHR ''{''" by metis
  thus ?thesis unfolding e .
qed


lemma takeWhile_key:
  "CHR ''}'' \<notin> set k \<Longrightarrow> takeWhile (\<lambda>c. c \<noteq> CHR ''}'') (k @ CHR ''}'' # t) = k"
  by (induction k) auto

lemma key_before_brace:
  assumes "CHR ''}'' \<notin> set ka" "CHR ''}'' \<notin> set kb" "ka @ CHR ''}'' # r = kb @ CHR ''}'' # r'"
  shows "ka = kb"
proof -
  have "ka = takeWhile (\<lambda>c. c \<noteq> CHR ''}'') (ka @ CHR ''}'' # r)"
    using assms(1) by (rule takeWhile_key[symmetric])
  also have "\<dots> = takeWhile (\<lambda>c. c \<noteq> CHR ''}'') (kb @ CHR ''}'' # r')"
    by (simp only: assms(3))
  also have "\<dots> = kb" using assms(2) by (rule takeWhile_key)
  finally show ?thesis .
qed

lemma placeholder_same_start:
  assumes "brace_free ka" "brace_free kb" "placeholder ka @ v = placeholder kb @ post"
  shows "ka = kb"
proof -
  from assms(3) have "ka @ CHR ''}'' # (CHR ''}'' # v) = kb @ CHR ''}'' # (CHR ''}'' # post)"
    unfolding placeholder_unfold by simp
  moreover have "CHR ''}'' \<notin> set ka" "CHR ''}'' \<notin> set kb"
    using assms(1,2) by (simp_all add: brace_free_def)
  ultimately show ?thesis by (metis key_before_brace)
qed

lemma placeholder_not_inside:
  assumes ka: "brace_free ka" and kb: "brace_free kb" and ne: "ka \<noteq> kb"
      and eq: "placeholder ka @ v = w @ placeholder kb @ post"
  shows "length (placeholder ka) \<le> length w"
proof (rule ccontr)
  assume "\<not> length (placeholder ka) \<le> length w"
  hence lt: "length w < length (placeholder ka)" by simp
  have "(placeholder ka @ v) ! length w = placeholder ka ! length w"
    using lt by (simp add: nth_append)
  moreover have "(w @ placeholder kb @ post) ! length w = CHR ''{''"
    unfolding placeholder_unfold by (simp only: nth_append_length append_Cons)
  ultimately have b: "placeholder ka ! length w = CHR ''{''" using eq by simp
  hence "\<not> 2 \<le> length w" using placeholder_inner[OF ka _ lt] by blast
  hence "length w = 0 \<or> length w = 1" by linarith
  thus False
  proof
    assume "length w = 0"
    hence "placeholder ka @ v = placeholder kb @ post" using eq by simp
    from placeholder_same_start[OF ka kb this] ne show False by simp
  next
    assume w: "length w = 1"
    have "(placeholder ka @ v) ! 2 = placeholder ka ! 2"
      by (simp only: nth_append placeholder_length) simp
    moreover have "(w @ placeholder kb @ post) ! 2 = placeholder kb ! 1"
    proof -
      obtain c where "w = [c]" using w by (cases w) simp_all
      thus ?thesis unfolding placeholder_unfold by simp
    qed
    ultimately have "placeholder ka ! 2 = CHR ''{''"
      using eq placeholder_nth1[of kb] by simp
    moreover have "placeholder ka ! 2 \<noteq> CHR ''{''"
      by (rule placeholder_inner[OF ka]) (simp_all add: placeholder_length)
    ultimately show False by simp
  qed
qed

lemma append_eq_cases:
  "xs @ ys = zs @ ts \<Longrightarrow>
   (\<exists>w. zs = xs @ w \<and> ys = w @ ts) \<or> (\<exists>w. xs = zs @ w \<and> ts = w @ ys)"
proof (induction xs arbitrary: zs)
  case Nil
  then show ?case by simp
next
  case (Cons x xs)
  show ?case
  proof (cases zs)
    case Nil
    with Cons.prems show ?thesis by simp
  next
    case (Cons z zs')
    with Cons.prems have "x = z" "xs @ ys = zs' @ ts" by simp_all
    from Cons.IH[OF this(2)] show ?thesis unfolding Cons \<open>x = z\<close> by simp
  qed
qed

lemma placeholder_after:
  assumes "brace_free ka" "brace_free kb" "ka \<noteq> kb"
      and eq: "placeholder ka @ v = w @ placeholder kb @ post"
  shows "\<exists>x. w = placeholder ka @ x \<and> v = x @ placeholder kb @ post"
proof -
  have le: "length (placeholder ka) \<le> length w" using assms by (rule placeholder_not_inside)
  from append_eq_cases[OF eq] show ?thesis
  proof
    assume "\<exists>x. w = placeholder ka @ x \<and> v = x @ placeholder kb @ post"
    thus ?thesis .
  next
    assume "\<exists>x. placeholder ka = w @ x \<and> placeholder kb @ post = x @ v"
    then obtain x where a: "placeholder ka = w @ x" and b: "placeholder kb @ post = x @ v"
      by blast
    from a have "length (placeholder ka) = length w + length x" by (metis length_append)
    with le have "x = []" by simp
    with a b have "w = placeholder ka @ [] \<and> v = [] @ placeholder kb @ post" by simp
    thus ?thesis by blast
  qed
qed


lemma replace_keeps_placeholder:
  assumes ka: "brace_free ka" and kb: "brace_free kb" and ne: "ka \<noteq> kb"
      and sub: "sublist (placeholder kb) s"
  shows "sublist (placeholder kb) (replace s (placeholder ka) rep)"
proof -
  from replace_cases[of s "placeholder ka" rep]
  show ?thesis
  proof
    assume "replace s (placeholder ka) rep = s"
    with sub show ?thesis by simp
  next
    assume "\<exists>u v r. s = u @ placeholder ka @ v \<and> replace s (placeholder ka) rep = u @ r @ v"
    then obtain u v r where s: "s = u @ placeholder ka @ v"
      and rp: "replace s (placeholder ka) rep = u @ r @ v" by blast
    from sub obtain pre post where s': "s = pre @ placeholder kb @ post"
      unfolding sublist_def by blast
    from s s' have "u @ (placeholder ka @ v) = pre @ (placeholder kb @ post)" by simp
    from append_eq_cases[OF this] show ?thesis
    proof
      assume "\<exists>w. pre = u @ w \<and> placeholder ka @ v = w @ placeholder kb @ post"
      then obtain w where "placeholder ka @ v = w @ placeholder kb @ post" by blast
      from placeholder_after[OF ka kb ne this]
      obtain x where "v = x @ placeholder kb @ post" by blast
      hence "u @ r @ v = (u @ r @ x) @ placeholder kb @ post" by simp
      thus ?thesis unfolding rp sublist_def by blast
    next
      assume "\<exists>w. u = pre @ w \<and> placeholder kb @ post = w @ placeholder ka @ v"
      then obtain w where u: "u = pre @ w"
        and e: "placeholder kb @ post = w @ placeholder ka @ v" by blast
      from placeholder_after[OF kb ka ne[symmetric] e]
      obtain x where "w = placeholder kb @ x" by blast
      with u have "u @ r @ v = pre @ placeholder kb @ (x @ r @ v)" by simp
      thus ?thesis unfolding rp sublist_def by blast
    qed
  qed
qed

lemma substitute_outputs_keeps_placeholder:
  assumes "brace_free kb"
      and "\<forall>key \<in> set (map fst outs). brace_free key \<and> key \<noteq> kb"
      and "sublist (placeholder kb) s"
  shows "sublist (placeholder kb) (substitute_outputs outs s)"
  using assms(2,3)
proof (induction outs arbitrary: s)
  case Nil
  then show ?case by simp
next
  case (Cons kv outs)
  obtain key v where kv: "kv = (key, v)" by (cases kv)
  from Cons.prems(1) have k: "brace_free key" "key \<noteq> kb"
    and rest: "\<forall>key \<in> set (map fst outs). brace_free key \<and> key \<noteq> kb"
    by (simp_all add: kv)
  have "sublist (placeholder kb) (replace s (placeholder key) (toString v))"
    using k(1) assms(1) k(2) Cons.prems(2) by (rule replace_keeps_placeholder)
  from Cons.IH[OF rest this] show ?case by (simp add: kv placeholder_def)
qed

lemma digits_brace_free: "brace_free (digits n)"
proof (induction n rule: digits.induct)
  case (1 n)
  show ?case
  proof (cases "n < 10")
    case True
    hence "digits n = [''0123456789'' ! n]" by (subst digits.simps) simp
    thus ?thesis
      using digit_char_brace_free[OF True] by (simp add: brace_free_def) metis
  next
    case False
    hence d: "digits n = digits (n div 10) @ [''0123456789'' ! (n mod 10)]"
      by (subst digits.simps) simp
    have m: "n mod 10 < 10" by simp
    show ?thesis
      using "1.IH"[OF False] digit_char_brace_free[OF m]
      unfolding d by (simp add: brace_free_def) metis
  qed
qed

lemma step_key_brace_free: "brace_free (step_key n)"
  using digits_brace_free[of n] by (simp add: step_key_def brace_free_def)

text \<open>
  Claim C9. When step \<open>j + 1\<close> of a plan is dispatched, only the outputs of steps \<open>1\<close> to
  \<open>j\<close> are substituted. A placeholder \<open>{{step_N_output}}\<close> of its prompt template whose
  \<open>N\<close> is not one of \<open>1, \<dots>, j\<close> (the step itself, a later step, or an index out of range)
  still stands in the prompt that is dispatched; nothing is raised for it. The prompt of
  the first step is dispatched exactly as the template has it.
\<close>

theorem unresolved_placeholder_passthrough:
  assumes "j < length (dispatched (executePlan api emb snap plan st))"
      and "N \<notin> {1..j}"
      and "sublist (placeholder (step_key N)) (step_prompt (plan ! j))"
  shows "sublist (placeholder (step_key N)) (snd (dispatched (executePlan api emb snap plan st) ! j))
       \<and> (j = 0 \<longrightarrow> snd (dispatched (executePlan api emb snap plan st) ! j) = step_prompt (plan ! j))"
proof -
  let ?r = "executePlan api emb snap plan st"
  have "trace_ok api emb snap plan (chatHistory st) ?r" by (rule executePlan_trace)
  hence "dispatch_ok plan j (dispatched ?r ! j)" using assms(1) by (rule trace_ok_dispatch)
  then obtain outs where keys: "map fst outs = map step_key [1..<Suc j]"
    and p: "snd (dispatched ?r ! j) = substitute_outputs outs (step_prompt (plan ! j))"
    unfolding dispatch_ok_def by blast
  have "\<forall>key \<in> set (map fst outs). brace_free key \<and> key \<noteq> step_key N"
  proof
    fix key assume "key \<in> set (map fst outs)"
    then obtain i where i: "key = step_key i" "1 \<le> i" "i \<le> j" unfolding keys by auto
    with assms(2) have "i \<noteq> N" by auto
    hence "step_key i \<noteq> step_key N" using step_key_inj by blast
    thus "brace_free key \<and> key \<noteq> step_key N" using i(1) step_key_brace_free by simp
  qed
  with step_key_brace_free[of N]
  have "sublist (placeholder (step_key N)) (substitute_outputs outs (step_prompt (plan ! j)))"
    using assms(3) by (rule substitute_outputs_keeps_placeholder)
  moreover have "j = 0 \<longrightarrow> substitute_outputs outs (step_prompt (plan ! j)) = step_prompt (plan ! j)"
    using keys by auto
  ultimately show ?thesis unfolding p by simp
qed

lemma later_plan_run:
  "map snd (dispatched (executePlan fixed_reply unit_embedding ready later_plan ready)) =
     [''see {{step_3_output}}'', ''RESULT then {{step_3_output}}'']"
  by (simp add: executePlan_def executePlan_loop.simps later_plan_def callAgent_def
      handleWebSearchQuery_def callGeminiAPI_def fixed_reply_def ready_def initial_def Let_def
      digits.simps replace_def)

theorem unresolved_placeholder_passthrough_witness:
  "Suc 0 < length (dispatched (executePlan fixed_reply unit_embedding ready later_plan ready))
   \<and> (3::nat) \<notin> {1..Suc 0}
   \<and> sublist (placeholder (step_key 3)) (step_prompt (later_plan ! Suc 0))
   \<and> sublist (placeholder (step_key 3))
        (snd (dispatched (executePlan fixed_reply unit_embedding ready later_plan ready) ! Suc 0))
   \<and> snd (dispatched (executePlan fixed_reply unit_embedding ready later_plan ready) ! Suc 0)
       = ''RESULT then {{step_3_output}}''"
proof -
  let ?r = "executePlan fixed_reply unit_embedding ready later_plan ready"
  have l: "length (map snd (dispatched ?r)) = 2" unfolding later_plan_run by simp
  hence h1: "Suc 0 < length (dispatched ?r)" by simp
  have h2: "(3::nat) \<notin> {1..Suc 0}" by simp
  have ph: "placeholder (step_key 3) = ''{{step_3_output}}''"
    by (simp add: placeholder_def step_key_def digits.simps)
  have "step_prompt (later_plan ! Suc 0) = ''{{step_1_output}} then '' @ placeholder (step_key 3) @ []"
    unfolding ph by (simp add: later_plan_def)
  hence h3: "sublist (placeholder (step_key 3)) (step_prompt (later_plan ! Suc 0))"
    unfolding sublist_def by blast
  have "map snd (dispatched ?r) ! Suc 0 = ''RESULT then {{step_3_output}}''"
    unfolding later_plan_run by simp
  hence v: "snd (dispatched ?r ! Suc 0) = ''RESULT then {{step_3_output}}''"
    using h1 by simp
  from unresolved_placeholder_passthrough[OF h1 h2 h3] h1 h2 h3 v
  show ?thesis by (intro conjI) simp_all
qed

section \<open>Substitution on concrete plans\<close>

lemmas run_plan_simps =
  executePlan_def executePlan_loop.simps callAgent_def handleWebSearchQuery_def
  handleCodeGenerationQuery_def handleImageAnalysisQuery_def callGeminiAPI_def
  ready_def initial_def Let_def digits.simps replace_def

text \<open>
  Claim C1 (where the program departs from it). The substitution loop calls
  \<open>currentPrompt.replace(placeholder, output)\<close> once for each recorded output, and
  \<open>replace\<close> with a string pattern changes the first occurrence only. The plan of the
  specification's example dispatches \<open>use RESULT\<close>; a template that holds the same
  placeholder twice keeps its second occurrence; and an output text with \<open>$$\<close> is not
  inserted as it is, because \<open>replace\<close> reads \<open>$\<close> patterns in its second argument.
\<close>

theorem substitution_first_occurrence_only:
  "map snd (dispatched (executePlan fixed_reply unit_embedding ready use_plan ready)) =
     [''x'', ''use RESULT'']
   \<and> map snd (dispatched (executePlan fixed_reply unit_embedding ready twice_plan ready)) =
     [''x'', ''RESULT and {{step_1_output}}'']
   \<and> map snd (dispatched (executePlan dollar_reply unit_embedding ready use_plan ready)) =
     [''x'', ''use a$b'']"
  by (simp add: run_plan_simps use_plan_def twice_plan_def fixed_reply_def dollar_reply_def)

section \<open>Image analysis\<close>

lemma handleImageAnalysisQuery_attached:
  "attachedImage snap = Some img \<Longrightarrow>
   handleImageAnalysisQuery api snap p st =
   (Inr \<lparr>resp_agent = ''ImageAnalysisAgent'', resp_text = api_text (api p (Some img)),
         resp_sources = None\<rparr>,
    (api_effect (api p (Some img)) st)\<lparr>attachedImage := None\<rparr>)"
  by (simp add: handleImageAnalysisQuery_def callGeminiAPI_eq)

lemma handleImageAnalysisQuery_none:
  "attachedImage snap = None \<Longrightarrow>
   handleImageAnalysisQuery api snap p st =
   (Inr \<lparr>resp_agent = ''ImageAnalysisAgent'', resp_text = Text ''Error: No image was attached.'',
         resp_sources = None\<rparr>, st)"
  by (simp add: handleImageAnalysisQuery_def)

lemma agent_reply_image:
  "attachedImage snap = Some img \<Longrightarrow>
   agent_reply api emb snap (''ImageAnalysisAgent'', p) =
   Inr \<lparr>resp_agent = ''ImageAnalysisAgent'', resp_text = api_text (api p (Some img)),
        resp_sources = None\<rparr>"
  by (simp add: agent_reply_def callAgent_def handleImageAnalysisQuery_attached)

text \<open>
  Claim C10 (as the program behaves). The handlers of a plan execution read
  \<open>attachedImage\<close> from the render in which the execution started (\<open>snap\<close>), and
  \<open>setAttachedImage(null)\<close> changes the session for later renders only. So an image analysis
  whose model call returns text clears the attached image and changes nothing else; every
  image analysis step of the same execution is still sent with the image of \<open>snap\<close> and its
  reply is recorded; the message \<open>Error: No image was attached.\<close> is the reply of executions
  whose render has no attached image.
\<close>

theorem image_cleared_for_later_renders:
  "(attachedImage snap = Some img \<and> api p (Some img) = ApiText t \<longrightarrow>
      handleImageAnalysisQuery api snap p st =
        (Inr \<lparr>resp_agent = ''ImageAnalysisAgent'', resp_text = Text t, resp_sources = None\<rparr>,
         st\<lparr>attachedImage := None\<rparr>))
   \<and> (attachedImage snap = Some img
        \<and> j < length (dispatched (executePlan api emb snap plan st))
        \<and> step_agent (plan ! j) = ''ImageAnalysisAgent'' \<longrightarrow>
      chatHistory (final (executePlan api emb snap plan st)) ! (length (chatHistory st) + j) =
        AgentMessage
          \<lparr>resp_agent = ''ImageAnalysisAgent'',
           resp_text = api_text (api (snd (dispatched (executePlan api emb snap plan st) ! j)) (Some img)),
           resp_sources = None\<rparr> (Suc j = length plan))
   \<and> (attachedImage snap = None \<longrightarrow>
      handleImageAnalysisQuery api snap p st =
        (Inr \<lparr>resp_agent = ''ImageAnalysisAgent'',
              resp_text = Text ''Error: No image was attached.'', resp_sources = None\<rparr>, st))"
proof (intro conjI impI)
  assume "attachedImage snap = Some img \<and> api p (Some img) = ApiText t"
  thus "handleImageAnalysisQuery api snap p st =
        (Inr \<lparr>resp_agent = ''ImageAnalysisAgent'', resp_text = Text t, resp_sources = None\<rparr>,
         st\<lparr>attachedImage := None\<rparr>)"
    by (simp add: handleImageAnalysisQuery_attached api_text_def api_effect_def)
next
  let ?r = "executePlan api emb snap plan st"
  assume a: "attachedImage snap = Some img \<and> j < length (dispatched ?r)
             \<and> step_agent (plan ! j) = ''ImageAnalysisAgent''"
  have t: "trace_ok api emb snap plan (chatHistory st) ?r" by (rule executePlan_trace)
  hence "dispatch_ok plan j (dispatched ?r ! j)" using a by (intro trace_ok_dispatch) simp_all
  hence "fst (dispatched ?r ! j) = ''ImageAnalysisAgent''" using a by (simp add: dispatch_ok_def)
  hence "dispatched ?r ! j = (''ImageAnalysisAgent'', snd (dispatched ?r ! j))"
    by (metis prod.collapse)
  hence "agent_reply api emb snap (dispatched ?r ! j) =
         Inr \<lparr>resp_agent = ''ImageAnalysisAgent'',
              resp_text = api_text (api (snd (dispatched ?r ! j)) (Some img)),
              resp_sources = None\<rparr>"
    using agent_reply_image[of snap img api emb "snd (dispatched ?r ! j)"] a by simp
  from step_recorded[OF t _ this] a
  show "chatHistory (final ?r) ! (length (chatHistory st) + j) =
        AgentMessage
          \<lparr>resp_agent = ''ImageAnalysisAgent'',
           resp_text = api_text (api (snd (dispatched ?r ! j)) (Some img)),
           resp_sources = None\<rparr> (Suc j = length plan)"
    by simp
next
  assume "attachedImage snap = None"
  thus "handleImageAnalysisQuery api snap p st =
        (Inr \<lparr>resp_agent = ''ImageAnalysisAgent'',
              resp_text = Text ''Error: No image was attached.'', resp_sources = None\<rparr>, st)"
    by (rule handleImageAnalysisQuery_none)
qed

text \<open>
  The claim as written fails: with an image attached when the execution starts, the
  second image analysis step of the plan gets the model's reply, not the message that no
  image was attached, although the first step has cleared the attached image.
\<close>

theorem second_image_step_counterexample:
  "chatHistory (final (executePlan fixed_reply unit_embedding attached image_plan attached)) =
     [AgentMessage \<lparr>resp_agent = ''ImageAnalysisAgent'', resp_text = Text ''RESULT'',
                    resp_sources = None\<rparr> False,
      AgentMessage \<lparr>resp_agent = ''ImageAnalysisAgent'', resp_text = Text ''RESULT'',
                    resp_sources = None\<rparr> True]
   \<and> attachedImage (final (executePlan fixed_reply unit_embedding attached image_plan attached))
       = None"
  by (simp add: run_plan_simps image_plan_def attached_def fixed_reply_def)

theorem image_cleared_for_later_renders_witness:
  "attachedImage attached = Some picture
   \<and> fixed_reply ''describe'' (Some picture) = ApiText ''RESULT''
   \<and> handleImageAnalysisQuery fixed_reply attached ''describe'' attached =
        (Inr \<lparr>resp_agent = ''ImageAnalysisAgent'', resp_text = Text ''RESULT'',
              resp_sources = None\<rparr>, attached\<lparr>attachedImage := None\<rparr>)
   \<and> attachedImage (attached\<lparr>attachedImage := None\<rparr>) = None
   \<and> handleImageAnalysisQuery fixed_reply (attached\<lparr>attachedImage := None\<rparr>) ''again''
        (attached\<lparr>attachedImage := None\<rparr>) =
        (Inr \<lparr>resp_agent = ''ImageAnalysisAgent'',
              resp_text = Text ''Error: No image was attached.'', resp_sources = None\<rparr>,
         attached\<lparr>attachedImage := None\<rparr>)"
proof -
  have h: "attachedImage attached = Some picture"
    "fixed_reply ''describe'' (Some picture) = ApiText ''RESULT''"
    "attachedImage (attached\<lparr>attachedImage := None\<rparr>) = None"
    by (simp_all add: attached_def fixed_reply_def)
  note a = image_cleared_for_later_renders[of attached picture fixed_reply "''describe''"
      "''RESULT''" attached 0 unit_embedding "[]"]
  note b = image_cleared_for_later_renders[of "attached\<lparr>attachedImage := None\<rparr>" picture
      fixed_reply "''again''" "''RESULT''" "attached\<lparr>attachedImage := None\<rparr>" 0 unit_embedding "[]"]
  from a h(1,2) have 1: "handleImageAnalysisQuery fixed_reply attached ''describe'' attached =
        (Inr \<lparr>resp_agent = ''ImageAnalysisAgent'', resp_text = Text ''RESULT'',
              resp_sources = None\<rparr>, attached\<lparr>attachedImage := None\<rparr>)" by blast
  from b h(3) have 2: "handleImageAnalysisQuery fixed_reply (attached\<lparr>attachedImage := None\<rparr>)
        ''again'' (attached\<lparr>attachedImage := None\<rparr>) =
        (Inr \<lparr>resp_agent = ''ImageAnalysisAgent'',
              resp_text = Text ''Error: No image was attached.'', resp_sources = None\<rparr>,
         attached\<lparr>attachedImage := None\<rparr>)" by blast
  from h 1 2 show ?thesis by (intro conjI)
qed

section \<open>Properties of the planner\<close>

lemma message_lines:
  "list_all has_parts h \<Longrightarrow> map_throwing message_line h = Inr (map rendered_line h)"
proof (induction h)
  case Nil
  then show ?case by simp
next
  case (Cons m h)
  then show ?case by (cases m) simp_all
qed

lemma valid_fallback_plan: "valid_plan (fallback_plan prompt)"
  by (simp add: valid_plan_def fallback_plan_def is_plan_step_def property_def units_def)

lemma parse_response_cases:
  "parse_response (api_text out) =
     (case out of
        ApiText s \<Rightarrow> JSON_parse (case json_fence s of
                                   Some body \<Rightarrow> if body = [] then s else body
                                 | None \<Rightarrow> s)
      | ApiNoText \<Rightarrow> Inl TypeError
      | ApiFailure m \<Rightarrow> Inl TypeError)"
  by (simp add: parse_response_def api_text_def split: api_outcome.splits option.splits)

text \<open>
  Claim C2 (as the program behaves). When every message of the conversation history
  handed to it has a text part, \<open>callPlanner\<close> returns and does not raise, whatever the
  language model answers. For a text answer it parses the content of the first fenced
  \<open>json\<close> block when there is one with content, and the whole answer otherwise, and returns
  the JSON value it gets, whatever that value is; when the answer is absent or failed, or
  the text it tried is not JSON, it returns the one-step plan for \<open>WebSearchAgent\<close> with the
  request as prompt, which is a valid plan.
\<close>

theorem callPlanner_returns:
  assumes "list_all has_parts conversationHistory"
  shows "(let out = api (plannerPrompt (join ''\<newline>'' (map rendered_line conversationHistory))
                          prompt) None
          in callPlanner api prompt conversationHistory st =
               (Inr (case out of
                       ApiText s \<Rightarrow>
                         (case JSON_parse (case json_fence s of
                                             Some body \<Rightarrow> if body = [] then s else body
                                           | None \<Rightarrow> s) of
                            Inr parsed \<Rightarrow> parsed
                          | Inl e \<Rightarrow> fallback_plan prompt)
                     | ApiNoText \<Rightarrow> fallback_plan prompt
                     | ApiFailure m \<Rightarrow> fallback_plan prompt),
                api_effect out st))
         \<and> valid_plan (fallback_plan prompt)"
proof -
  let ?h = "join ''\<newline>'' (map rendered_line conversationHistory)"
  let ?out = "api (plannerPrompt ?h prompt) None"
  let ?plan = "case parse_response (api_text ?out) of
                 Inr plan \<Rightarrow> plan | Inl e \<Rightarrow> fallback_plan prompt"
  have run: "callPlanner api prompt conversationHistory st = (Inr ?plan, api_effect ?out st)"
    by (simp add: callPlanner_def message_lines[OF assms] callGeminiAPI_eq split: sum.splits)
  have sel: "?plan =
             (case ?out of
                ApiText s \<Rightarrow>
                  (case JSON_parse (case json_fence s of
                                      Some body \<Rightarrow> if body = [] then s else body
                                    | None \<Rightarrow> s) of
                     Inr parsed \<Rightarrow> parsed
                   | Inl e \<Rightarrow> fallback_plan prompt)
              | ApiNoText \<Rightarrow> fallback_plan prompt
              | ApiFailure m \<Rightarrow> fallback_plan prompt)"
    unfolding parse_response_cases by (simp split: api_outcome.splits)
  show ?thesis
    unfolding Let_def run sel using valid_fallback_plan by simp
qed

text \<open>
  The claim as written fails: the answer \<open>[]\<close> is JSON, so the planner returns the empty
  array, which is not a plan with at least one step.
\<close>

theorem empty_plan_counterexample:
  "fst (callPlanner empty_reply ''q'' [] ready) = Inr (JArray []) \<and> \<not> valid_plan (JArray [])"
  by code_simp


lemma fenced_reply_plan:
  "fst (callPlanner fenced_reply ''q'' [ModelMessage ''Hello''] ready) =
     Inr (JArray [JObject [(units ''agent'', JString (units ''KnowledgeAgent'')),
                           (units ''prompt'', JString (units ''hi''))]])"
  by code_simp

lemma prose_reply_fallback:
  "fst (callPlanner prose_reply ''q'' [ModelMessage ''Hello''] ready) = Inr (fallback_plan ''q'')"
  by code_simp

lemma failing_api_fallback:
  "fst (callPlanner failing_api ''q'' [ModelMessage ''Hello''] ready) = Inr (fallback_plan ''q'')"
  by code_simp

lemma plan_message_in_history:
  "fst (callPlanner fenced_reply ''q'' [UserMessage ''first'' None, PlanMessage (fallback_plan ''first'')]
          ready) = Inl TypeError"
  by code_simp

theorem callPlanner_returns_witness:
  "list_all has_parts [ModelMessage ''Hello'']
   \<and> (\<exists>plan st'. callPlanner fenced_reply ''q'' [ModelMessage ''Hello''] ready = (Inr plan, st')
         \<and> valid_plan plan)
   \<and> fst (callPlanner prose_reply ''q'' [ModelMessage ''Hello''] ready) = Inr (fallback_plan ''q'')"
proof -
  have h: "list_all has_parts [ModelMessage ''Hello'']" by simp
  from callPlanner_returns[OF h, of fenced_reply "''q''" ready]
  obtain plan st' where
    r: "callPlanner fenced_reply ''q'' [ModelMessage ''Hello''] ready = (Inr plan, st')"
    unfolding Let_def by blast
  with fenced_reply_plan have
    "plan = JArray [JObject [(units ''agent'', JString (units ''KnowledgeAgent'')),
                             (units ''prompt'', JString (units ''hi''))]]"
    by simp
  hence "valid_plan plan"
    by (simp add: valid_plan_def is_plan_step_def property_def units_def)
  with r have "\<exists>plan st'. callPlanner fenced_reply ''q'' [ModelMessage ''Hello''] ready = (Inr plan, st')
         \<and> valid_plan plan" by blast
  with h prose_reply_fallback show ?thesis by (intro conjI)
qed

section \<open>The parser always has enough fuel\<close>

lemma skip_ws_length: "length (skip_ws s) \<le> length s"
  by (simp add: skip_ws_def length_dropWhile_le)

lemma skip_ws_Cons_length: "skip_ws s = c # r \<Longrightarrow> length r < length s"
  using skip_ws_length[of s] by simp

lemma expect_shorter: "expect c s = Some r \<Longrightarrow> length r < length s"
  using skip_ws_length[of s]
  by (auto simp: expect_def split: list.splits if_splits)

lemma string_body_shorter: "string_body s acc = Some (u, r) \<Longrightarrow> length r < length s"
proof (induction s acc rule: string_body.induct)
  case (1 acc)
  then show ?case by simp
next
  case (2 c cs acc)
  show ?case
  proof (cases "c = CHR 0x22")
    case True
    with "2.prems" show ?thesis by simp
  next
    case nq: False
    show ?thesis
    proof (cases "c = CHR 0x5C")
      case False
      with nq "2.prems" "2.IH"(3) show ?thesis
        by (auto split: if_splits)
    next
      case True
      with nq "2.prems" obtain e r0 where cs: "cs = e # r0" by (cases cs) auto
      show ?thesis
      proof (cases "e = CHR ''u''")
        case False
        with nq True cs "2.prems" obtain x where x: "escape e = Some x"
          and b: "string_body r0 (acc @ [x]) = Some (u, r)"
          by (auto split: option.splits)
        from "2.IH"(2) nq True cs False x b have "length r < length r0" by blast
        with cs show ?thesis by simp
      next
        case eu: True
        with nq True cs "2.prems" obtain h1 h2 h3 h4 r' x where
          r0: "r0 = h1 # h2 # h3 # h4 # r'" and x: "hex4 h1 h2 h3 h4 = Some x"
          and b: "string_body r' (acc @ [x]) = Some (u, r)"
          by (auto split: list.splits option.splits)
        from "2.IH"(1) nq True cs eu r0 x b have "length r < length r'" by blast
        with cs r0 show ?thesis by simp
      qed
    qed
  qed
qed


lemma number_int_shorter: "number_int s = Some (l, r) \<Longrightarrow> length r < length s"
  using length_dropWhile_le[of is_digit "tl s"]
  by (auto simp: number_int_def split: list.splits if_splits)

lemma digits_of_shorter: "digits_of s = Some (l, r) \<Longrightarrow> length r \<le> length s"
  using length_dropWhile_le[of is_digit s]
  by (auto simp: digits_of_def split: if_splits)

lemma number_frac_shorter: "number_frac s = Some (l, r) \<Longrightarrow> length r \<le> length s"
  by (auto simp: number_frac_def split: list.splits if_splits option.splits
           dest!: digits_of_shorter)

lemma number_exp_shorter: "number_exp s = Some (l, r) \<Longrightarrow> length r \<le> length s"
  by (auto simp: number_exp_def split: list.splits if_splits option.splits
           dest!: digits_of_shorter)

lemma number_shorter: "number s = Some (l, r) \<Longrightarrow> length r < length s"
proof -
  assume a: "number s = Some (l, r)"
  obtain sign s0 where s0: "(case s of [] \<Rightarrow> ([], s)
                        | c # r \<Rightarrow> if c = CHR ''-'' then ([c], r) else ([], s)) = (sign, s0)"
    by (cases "case s of [] \<Rightarrow> ([], s)
                        | c # r \<Rightarrow> if c = CHR ''-'' then ([c], r) else ([]::string, s)") auto
  hence le: "length s0 \<le> length s" by (auto split: list.splits if_splits)
  from a s0 obtain i s1 f s2 e where
    "number_int s0 = Some (i, s1)" "number_frac s1 = Some (f, s2)" "number_exp s2 = Some (e, r)"
    by (auto simp: number_def split: option.splits)
  from number_int_shorter[OF this(1)] number_frac_shorter[OF this(2)] number_exp_shorter[OF this(3)] le
  show ?thesis by simp
qed


lemma literal_rest_shorter: "length (drop 4 (c # r)) < length (skip_ws s)" if "skip_ws s = c # r"
  using that by simp

lemma parse_value_Suc_shorter:
  assumes m: "\<And>s ms r. parse_members n s = Parsed ms r \<Longrightarrow> length r < length s"
      and e: "\<And>s vs r. parse_elements n s = Parsed vs r \<Longrightarrow> length r < length s"
      and p: "parse_value (Suc n) s = Parsed v r"
  shows "length r < length s"
proof (cases "skip_ws s")
  case Nil
  with p show ?thesis by simp
next
  case (Cons c t)
  hence t: "length t < length s" by (rule skip_ws_Cons_length)
  consider (obj) "c = CHR ''{''" | (arr) "c \<noteq> CHR ''{''" "c = CHR ''[''"
    | (str) "c \<noteq> CHR ''{''" "c \<noteq> CHR ''[''" "c = CHR 0x22"
    | (other) "c \<noteq> CHR ''{''" "c \<noteq> CHR ''[''" "c \<noteq> CHR 0x22" by blast
  thus ?thesis
  proof cases
    case obj
    show ?thesis
    proof (cases "expect CHR ''}'' t")
      case (Some r')
      with p Cons obj have "r = r'" by simp
      with expect_shorter[OF Some] t show ?thesis by simp
    next
      case None
      with p Cons obj obtain ms where "parse_members n t = Parsed ms r"
        by (auto split: parsed.splits)
      from m[OF this] t show ?thesis by simp
    qed
  next
    case arr
    show ?thesis
    proof (cases "expect CHR '']'' t")
      case (Some r')
      with p Cons arr have "r = r'" by simp
      with expect_shorter[OF Some] t show ?thesis by simp
    next
      case None
      with p Cons arr obtain vs where "parse_elements n t = Parsed vs r"
        by (auto split: parsed.splits)
      from e[OF this] t show ?thesis by simp
    qed
  next
    case str
    with p Cons obtain u where "string_body t [] = Some (u, r)"
      by (auto split: option.splits)
    from string_body_shorter[OF this] t show ?thesis by simp
  next
    case other
    have c: "length (c # t) \<le> length s" using Cons skip_ws_length[of s] by metis
    show ?thesis
    proof (cases "prefix ''true'' (c # t) \<or> prefix ''false'' (c # t) \<or> prefix ''null'' (c # t)")
      case True
      with p Cons other have "r = drop 4 (c # t) \<or> r = drop 5 (c # t)"
        by (auto split: if_splits)
      with c show ?thesis by auto
    next
      case False
      with p Cons other obtain l where "number (c # t) = Some (l, r)"
        by (auto split: option.splits)
      from number_shorter[OF this] c show ?thesis by simp
    qed
  qed
qed


lemma parse_elements_Suc_shorter:
  assumes v: "\<And>s v r. parse_value n s = Parsed v r \<Longrightarrow> length r < length s"
      and e: "\<And>s vs r. parse_elements n s = Parsed vs r \<Longrightarrow> length r < length s"
      and p: "parse_elements (Suc n) s = Parsed vs r"
  shows "length r < length s"
proof -
  from p obtain x t where x: "parse_value n s = Parsed x t"
    by (auto split: parsed.splits)
  note t = v[OF x]
  show ?thesis
  proof (cases "expect CHR '','' t")
    case (Some t')
    with p x obtain ws where "parse_elements n t' = Parsed ws r"
      by (auto split: parsed.splits)
    from e[OF this] expect_shorter[OF Some] t show ?thesis by simp
  next
    case None
    with p x obtain t' where t': "expect CHR '']'' t = Some t'" and "r = t'"
      by (auto split: option.splits)
    with expect_shorter[OF t'] t show ?thesis by simp
  qed
qed

lemma parse_members_Suc_shorter:
  assumes v: "\<And>s v r. parse_value n s = Parsed v r \<Longrightarrow> length r < length s"
      and m: "\<And>s ms r. parse_members n s = Parsed ms r \<Longrightarrow> length r < length s"
      and p: "parse_members (Suc n) s = Parsed ms r"
  shows "length r < length s"
proof -
  from p obtain r0 where r0: "expect CHR 0x22 s = Some r0"
    by (auto split: option.splits)
  with p obtain k r1 where r1: "string_body r0 [] = Some (k, r1)"
    by (auto split: option.splits)
  with p r0 obtain r2 where r2: "expect CHR '':'' r1 = Some r2"
    by (auto split: option.splits)
  with p r0 r1 obtain x r3 where r3: "parse_value n r2 = Parsed x r3"
    by (auto split: parsed.splits)
  have l3: "length r3 < length s"
    using expect_shorter[OF r0] string_body_shorter[OF r1] expect_shorter[OF r2] v[OF r3]
    by simp
  show ?thesis
  proof (cases "expect CHR '','' r3")
    case (Some r4)
    with p r0 r1 r2 r3 obtain ws where "parse_members n r4 = Parsed ws r"
      by (auto split: parsed.splits)
    from m[OF this] expect_shorter[OF Some] l3 show ?thesis by simp
  next
    case None
    with p r0 r1 r2 r3 obtain r4 where r4: "expect CHR ''}'' r3 = Some r4" and "r = r4"
      by (auto split: option.splits)
    with expect_shorter[OF r4] l3 show ?thesis by simp
  qed
qed

lemma parse_shorter:
  "(\<forall>s v r. parse_value n s = Parsed v r \<longrightarrow> length r < length s)
   \<and> (\<forall>s vs r. parse_elements n s = Parsed vs r \<longrightarrow> length r < length s)
   \<and> (\<forall>s ms r. parse_members n s = Parsed ms r \<longrightarrow> length r < length s)"
proof (induction n)
  case 0
  show ?case by simp
next
  case (Suc n)
  hence v: "\<And>s v r. parse_value n s = Parsed v r \<Longrightarrow> length r < length s"
    and e: "\<And>s vs r. parse_elements n s = Parsed vs r \<Longrightarrow> length r < length s"
    and m: "\<And>s ms r. parse_members n s = Parsed ms r \<Longrightarrow> length r < length s"
    by blast+
  have "length r < length s" if "parse_value (Suc n) s = Parsed x r" for s x r
    using m e that by (rule parse_value_Suc_shorter[where n = n])
  moreover have "length r < length s" if "parse_elements (Suc n) s = Parsed x r" for s x r
    using v e that by (rule parse_elements_Suc_shorter[where n = n])
  moreover have "length r < length s" if "parse_members (Suc n) s = Parsed x r" for s x r
    using v m that by (rule parse_members_Suc_shorter[where n = n])
  ultimately show ?case by blast
qed

lemma parse_value_shorter: "parse_value n s = Parsed v r \<Longrightarrow> length r < length s"
  using parse_shorter[of n] by blast


lemma parse_value_Suc_fuel:
  assumes m: "\<And>s. 2 * length s + 1 < n \<Longrightarrow> parse_members n s \<noteq> Exhausted"
      and e: "\<And>s. 2 * length s + 1 < n \<Longrightarrow> parse_elements n s \<noteq> Exhausted"
      and f: "2 * length s < Suc n"
  shows "parse_value (Suc n) s \<noteq> Exhausted"
proof (cases "skip_ws s")
  case Nil
  then show ?thesis by simp
next
  case (Cons c t)
  hence "length t < length s" by (rule skip_ws_Cons_length)
  with f have t: "2 * length t + 1 < n" by simp
  show ?thesis
    using Cons m[OF t] e[OF t]
    by (simp split: option.splits parsed.splits)
qed

lemma parse_elements_Suc_fuel:
  assumes v: "\<And>s. 2 * length s < n \<Longrightarrow> parse_value n s \<noteq> Exhausted"
      and e: "\<And>s. 2 * length s + 1 < n \<Longrightarrow> parse_elements n s \<noteq> Exhausted"
      and f: "2 * length s + 1 < Suc n"
  shows "parse_elements (Suc n) s \<noteq> Exhausted"
proof (cases "parse_value n s")
  case (Parsed x t)
  note t = parse_value_shorter[OF Parsed]
  show ?thesis
  proof (cases "expect CHR '','' t")
    case None
    with Parsed show ?thesis by (simp split: option.splits)
  next
    case (Some t')
    from expect_shorter[OF Some] t f have "2 * length t' + 1 < n" by simp
    from e[OF this] Parsed Some show ?thesis by (simp split: parsed.splits)
  qed
next
  case Malformed
  then show ?thesis by simp
next
  case Exhausted
  moreover from f have "2 * length s < n" by simp
  ultimately show ?thesis using v by blast
qed

lemma parse_members_Suc_fuel:
  assumes v: "\<And>s. 2 * length s < n \<Longrightarrow> parse_value n s \<noteq> Exhausted"
      and m: "\<And>s. 2 * length s + 1 < n \<Longrightarrow> parse_members n s \<noteq> Exhausted"
      and f: "2 * length s + 1 < Suc n"
  shows "parse_members (Suc n) s \<noteq> Exhausted"
proof (cases "expect CHR 0x22 s")
  case None
  then show ?thesis by simp
next
  case r0: (Some r0)
  show ?thesis
  proof (cases "string_body r0 []")
    case None
    with r0 show ?thesis by simp
  next
    case (Some kr)
    obtain k r1 where kr: "kr = (k, r1)" by (cases kr)
    note r1 = Some[unfolded kr]
    show ?thesis
    proof (cases "expect CHR '':'' r1")
      case None
      with r0 r1 show ?thesis by simp
    next
      case r2: (Some r2)
      have l2: "length r2 < length s"
        using expect_shorter[OF r0] string_body_shorter[OF r1] expect_shorter[OF r2] by simp
      show ?thesis
      proof (cases "parse_value n r2")
        case Malformed
        with r0 r1 r2 show ?thesis by simp
      next
        case Exhausted
        moreover from l2 f have "2 * length r2 < n" by simp
        ultimately show ?thesis using v by blast
      next
        case (Parsed x r3)
        note l3 = parse_value_shorter[OF Parsed]
        show ?thesis
        proof (cases "expect CHR '','' r3")
          case None
          with r0 r1 r2 Parsed show ?thesis by (simp split: option.splits)
        next
          case (Some r4)
          from expect_shorter[OF Some] l3 l2 f have "2 * length r4 + 1 < n" by simp
          from m[OF this] r0 r1 r2 Parsed Some show ?thesis by (simp split: parsed.splits)
        qed
      qed
    qed
  qed
qed

lemma parse_fuel:
  "(\<forall>s. 2 * length s < n \<longrightarrow> parse_value n s \<noteq> Exhausted)
   \<and> (\<forall>s. 2 * length s + 1 < n \<longrightarrow> parse_elements n s \<noteq> Exhausted)
   \<and> (\<forall>s. 2 * length s + 1 < n \<longrightarrow> parse_members n s \<noteq> Exhausted)"
proof (induction n)
  case 0
  show ?case by simp
next
  case (Suc n)
  hence v: "\<And>s. 2 * length s < n \<Longrightarrow> parse_value n s \<noteq> Exhausted"
    and e: "\<And>s. 2 * length s + 1 < n \<Longrightarrow> parse_elements n s \<noteq> Exhausted"
    and m: "\<And>s. 2 * length s + 1 < n \<Longrightarrow> parse_members n s \<noteq> Exhausted"
    by blast+
  have "parse_value (Suc n) s \<noteq> Exhausted" if "2 * length s < Suc n" for s
    using m e that by (rule parse_value_Suc_fuel[where n = n])
  moreover have "parse_elements (Suc n) s \<noteq> Exhausted" if "2 * length s + 1 < Suc n" for s
    using v e that by (rule parse_elements_Suc_fuel[where n = n])
  moreover have "parse_members (Suc n) s \<noteq> Exhausted" if "2 * length s + 1 < Suc n" for s
    using v m that by (rule parse_members_Suc_fuel[where n = n])
  ultimately show ?case by blast
qed

lemma JSON_parse_fuel: "parse_value (2 * length s + 2) s \<noteq> Exhausted"
  using parse_fuel[of "2 * length s + 2"] by simp


lemma parse_value_Suc_more:
  assumes m: "\<And>s. parse_members n s \<noteq> Exhausted \<Longrightarrow> parse_members (n + k) s = parse_members n s"
      and e: "\<And>s. parse_elements n s \<noteq> Exhausted \<Longrightarrow> parse_elements (n + k) s = parse_elements n s"
      and p: "parse_value (Suc n) s \<noteq> Exhausted"
  shows "parse_value (Suc (n + k)) s = parse_value (Suc n) s"
proof (cases "skip_ws s")
  case Nil
  then show ?thesis by simp
next
  case (Cons c t)
  show ?thesis
  proof (cases "parse_members n t = Exhausted \<or> parse_elements n t = Exhausted")
    case False
    with m[of t] e[of t] Cons show ?thesis
      by (auto split: option.splits if_splits parsed.splits)
  next
    case True
    with p Cons m[of t] e[of t] show ?thesis
      by (auto split: option.splits if_splits parsed.splits)
  qed
qed

lemma parse_elements_Suc_more:
  assumes v: "\<And>s. parse_value n s \<noteq> Exhausted \<Longrightarrow> parse_value (n + k) s = parse_value n s"
      and e: "\<And>s. parse_elements n s \<noteq> Exhausted \<Longrightarrow> parse_elements (n + k) s = parse_elements n s"
      and p: "parse_elements (Suc n) s \<noteq> Exhausted"
  shows "parse_elements (Suc (n + k)) s = parse_elements (Suc n) s"
proof (cases "parse_value n s")
  case (Parsed x t)
  hence x: "parse_value (n + k) s = Parsed x t" using v[of s] by simp
  show ?thesis
  proof (cases "expect CHR '','' t")
    case None
    with Parsed x show ?thesis by simp
  next
    case (Some t')
    with p Parsed have "parse_elements n t' \<noteq> Exhausted" by (auto split: parsed.splits)
    from e[OF this] Parsed x Some show ?thesis by simp
  qed
next
  case Malformed
  with v[of s] show ?thesis by simp
next
  case Exhausted
  with p show ?thesis by simp
qed

lemma parse_members_Suc_more:
  assumes v: "\<And>s. parse_value n s \<noteq> Exhausted \<Longrightarrow> parse_value (n + k) s = parse_value n s"
      and m: "\<And>s. parse_members n s \<noteq> Exhausted \<Longrightarrow> parse_members (n + k) s = parse_members n s"
      and p: "parse_members (Suc n) s \<noteq> Exhausted"
  shows "parse_members (Suc (n + k)) s = parse_members (Suc n) s"
proof (cases "expect CHR 0x22 s")
  case None
  then show ?thesis by simp
next
  case r0: (Some r0)
  show ?thesis
  proof (cases "string_body r0 []")
    case None
    with r0 show ?thesis by simp
  next
    case (Some kr)
    obtain key r1 where kr: "kr = (key, r1)" by (cases kr)
    note r1 = Some[unfolded kr]
    show ?thesis
    proof (cases "expect CHR '':'' r1")
      case None
      with r0 r1 show ?thesis by simp
    next
      case r2: (Some r2)
      show ?thesis
      proof (cases "parse_value n r2")
        case Malformed
        with v[of r2] r0 r1 r2 show ?thesis by simp
      next
        case Exhausted
        with p r0 r1 r2 show ?thesis by simp
      next
        case (Parsed x r3)
        hence x: "parse_value (n + k) r2 = Parsed x r3" using v[of r2] by simp
        show ?thesis
        proof (cases "expect CHR '','' r3")
          case None
          with r0 r1 r2 Parsed x show ?thesis by simp
        next
          case (Some r4)
          with p r0 r1 r2 Parsed have "parse_members n r4 \<noteq> Exhausted"
            by (auto split: parsed.splits)
          from m[OF this] r0 r1 r2 Parsed x Some show ?thesis by simp
        qed
      qed
    qed
  qed
qed

lemma parse_more_fuel:
  "(\<forall>s. parse_value n s \<noteq> Exhausted \<longrightarrow> parse_value (n + k) s = parse_value n s)
   \<and> (\<forall>s. parse_elements n s \<noteq> Exhausted \<longrightarrow> parse_elements (n + k) s = parse_elements n s)
   \<and> (\<forall>s. parse_members n s \<noteq> Exhausted \<longrightarrow> parse_members (n + k) s = parse_members n s)"
proof (induction n)
  case 0
  show ?case by simp
next
  case (Suc n)
  hence v: "\<And>s. parse_value n s \<noteq> Exhausted \<Longrightarrow> parse_value (n + k) s = parse_value n s"
    and e: "\<And>s. parse_elements n s \<noteq> Exhausted \<Longrightarrow> parse_elements (n + k) s = parse_elements n s"
    and m: "\<And>s. parse_members n s \<noteq> Exhausted \<Longrightarrow> parse_members (n + k) s = parse_members n s"
    by blast+
  have "parse_value (Suc (n + k)) s = parse_value (Suc n) s"
    if "parse_value (Suc n) s \<noteq> Exhausted" for s
    using m e that by (rule parse_value_Suc_more[where n = n and k = k])
  moreover have "parse_elements (Suc (n + k)) s = parse_elements (Suc n) s"
    if "parse_elements (Suc n) s \<noteq> Exhausted" for s
    using v e that by (rule parse_elements_Suc_more[where n = n and k = k])
  moreover have "parse_members (Suc (n + k)) s = parse_members (Suc n) s"
    if "parse_members (Suc n) s \<noteq> Exhausted" for s
    using v m that by (rule parse_members_Suc_more[where n = n and k = k])
  ultimately show ?case by simp
qed

lemma JSON_parse_any_fuel:
  "2 * length s + 2 \<le> n \<Longrightarrow> parse_value n s = parse_value (2 * length s + 2) s"
proof -
  assume "2 * length s + 2 \<le> n"
  then obtain k where "n = (2 * length s + 2) + k" using le_Suc_ex by blast
  thus ?thesis using parse_more_fuel[of "2 * length s + 2" k] JSON_parse_fuel[of s] by blast
qed

end
